theory Spec2Isabelle
  imports Complex_Main "HOL-Library.Sublist" "HOL-Library.AList"
begin

section \<open>Secret encoder: \<^verbatim>\<open>encode-secrets.py\<close>\<close>

text \<open>
  A Python \<^verbatim>\<open>str\<close> is represented by the \<^typ>\<open>string\<close> of its UTF-8 bytes, so
  \<^verbatim>\<open>s.encode('utf-8')\<close> and \<^verbatim>\<open>b.decode('utf-8')\<close> are the identity on the
  representation, and a file is the byte string it holds. An ASCII character is never part
  of a longer UTF-8 sequence, so \<^verbatim>\<open>startswith('#')\<close>, \<^verbatim>\<open>'=' in line\<close> and
  \<^verbatim>\<open>split('=', 1)\<close> act on bytes as they do on code points. A file that is not
  well-formed UTF-8 makes the read raise \<^verbatim>\<open>UnicodeDecodeError\<close>.
\<close>

subsection \<open>Library: \<^verbatim>\<open>base64.b64encode\<close> and the standard decoder (RFC 4648)\<close>

definition b64_alphabet :: string where
  "b64_alphabet = ''ABCDEFGHIJKLMNOPQRSTUVWXYZabcdefghijklmnopqrstuvwxyz0123456789+/''"

definition b64_char :: "nat \<Rightarrow> char" where
  "b64_char i = b64_alphabet ! (i mod 64)"

fun index_of :: "'a \<Rightarrow> 'a list \<Rightarrow> nat option" where
  "index_of x [] = None"
| "index_of x (y # ys) = (if x = y then Some 0 else map_option Suc (index_of x ys))"

definition b64_value :: "char \<Rightarrow> nat option" where
  "b64_value c = index_of c b64_alphabet"

definition pad :: char where
  "pad = CHR ''=''"

fun b64encode :: "string \<Rightarrow> string" where
  "b64encode (a # b # c # rest) =
     (let x = (of_char a :: nat); y = (of_char b :: nat); z = (of_char c :: nat)
      in b64_char (x div 4) # b64_char ((x mod 4) * 16 + y div 16)
         # b64_char ((y mod 16) * 4 + z div 64) # b64_char (z mod 64) # b64encode rest)"
| "b64encode [a, b] =
     (let x = (of_char a :: nat); y = (of_char b :: nat)
      in [b64_char (x div 4), b64_char ((x mod 4) * 16 + y div 16),
          b64_char ((y mod 16) * 4), pad])"
| "b64encode [a] =
     (let x = (of_char a :: nat)
      in [b64_char (x div 4), b64_char ((x mod 4) * 16), pad, pad])"
| "b64encode [] = []"

text \<open>
  The decoder reads groups of four characters; padding is accepted in the last group only,
  and a character outside the alphabet or a group that is too short is an error
  (\<^const>\<open>None\<close>).
\<close>

definition sextets :: "char list \<Rightarrow> nat list option" where
  "sextets cs = (if list_all (\<lambda>c. b64_value c \<noteq> None) cs
                 then Some (map (\<lambda>c. the (b64_value c)) cs) else None)"

fun b64decode :: "string \<Rightarrow> string option" where
  "b64decode (a # b # c # d # rest) =
     (if rest = [] \<and> c = pad \<and> d = pad then
        (case sextets [a, b] of
           Some [p, q] \<Rightarrow> Some [char_of (p * 4 + q div 16)]
         | _ \<Rightarrow> None)
      else if rest = [] \<and> d = pad then
        (case sextets [a, b, c] of
           Some [p, q, r] \<Rightarrow>
             Some [char_of (p * 4 + q div 16), char_of ((q mod 16) * 16 + r div 4)]
         | _ \<Rightarrow> None)
      else
        (case sextets [a, b, c, d] of
           Some [p, q, r, s] \<Rightarrow>
             map_option (\<lambda>bs. char_of (p * 4 + q div 16) # char_of ((q mod 16) * 16 + r div 4)
                              # char_of ((r mod 4) * 64 + s) # bs) (b64decode rest)
         | _ \<Rightarrow> None))"
| "b64decode [] = Some []"
| "b64decode _ = None"

subsection \<open>Library: text files and \<^verbatim>\<open>str\<close> methods\<close>

datatype error = UnicodeDecodeError

text \<open>
  Strict UTF-8 decoding, as a scan over the bytes: \<open>need\<close> continuation bytes are still
  expected, the next of them within \<open>lo..hi\<close> (which excludes overlong forms, surrogates
  and code points above U+10FFFF).
\<close>

fun utf8_scan :: "nat \<Rightarrow> nat \<Rightarrow> nat \<Rightarrow> string \<Rightarrow> bool" where
  "utf8_scan need lo hi [] = (need = 0)"
| "utf8_scan need lo hi (c # cs) =
     (let b = (of_char c :: nat) in
      if need = 0 then
        (if b < 0x80 then utf8_scan 0 0x80 0xBF cs
         else if 0xC2 \<le> b \<and> b \<le> 0xDF then utf8_scan 1 0x80 0xBF cs
         else if b = 0xE0 then utf8_scan 2 0xA0 0xBF cs
         else if b = 0xED then utf8_scan 2 0x80 0x9F cs
         else if 0xE1 \<le> b \<and> b \<le> 0xEF then utf8_scan 2 0x80 0xBF cs
         else if b = 0xF0 then utf8_scan 3 0x90 0xBF cs
         else if 0xF1 \<le> b \<and> b \<le> 0xF3 then utf8_scan 3 0x80 0xBF cs
         else if b = 0xF4 then utf8_scan 3 0x80 0x8F cs
         else False)
      else (lo \<le> b \<and> b \<le> hi \<and> utf8_scan (need - 1) 0x80 0xBF cs))"

definition utf8_valid :: "string \<Rightarrow> bool" where
  "utf8_valid s = utf8_scan 0 0x80 0xBF s"

text \<open>
  Text mode with universal newlines: \<^verbatim>\<open>\r\n\<close> and a lone \<^verbatim>\<open>\r\<close> are read as
  \<^verbatim>\<open>\n\<close>; iterating the file yields each line with its terminator, and a last line
  without one if the file does not end in a newline.
\<close>

definition LF :: char where "LF = CHR 0x0A"
definition CR :: char where "CR = CHR 0x0D"
definition QUOTE :: char where "QUOTE = CHR 0x27"

fun universal_newlines :: "string \<Rightarrow> string" where
  "universal_newlines [] = []"
| "universal_newlines [c] = (if c = CR then [LF] else [c])"
| "universal_newlines (c # d # cs) =
     (if c = CR \<and> d = LF then LF # universal_newlines cs
      else if c = CR then LF # universal_newlines (d # cs)
      else c # universal_newlines (d # cs))"

fun lines_from :: "string \<Rightarrow> string \<Rightarrow> string list" where
  "lines_from cur [] = (if cur = [] then [] else [cur])"
| "lines_from cur (c # cs) =
     (if c = LF then (cur @ [c]) # lines_from [] cs else lines_from (cur @ [c]) cs)"

definition text_lines :: "string \<Rightarrow> string list" where
  "text_lines content = lines_from [] (universal_newlines content)"

text \<open>
  \<^verbatim>\<open>str.strip()\<close> removes the characters for which \<^verbatim>\<open>str.isspace\<close> holds:
  U+0009..U+000D, U+001C..U+0020, U+0085, U+00A0, U+1680, U+2000..U+200A, U+2028, U+2029,
  U+202F, U+205F, U+3000, given here by their UTF-8 bytes.
\<close>

definition space1 :: "nat \<Rightarrow> bool" where
  "space1 a = ((9 \<le> a \<and> a \<le> 13) \<or> (28 \<le> a \<and> a \<le> 32))"

definition space2 :: "nat \<Rightarrow> nat \<Rightarrow> bool" where
  "space2 a b = (a = 0xC2 \<and> (b = 0x85 \<or> b = 0xA0))"

definition space3 :: "nat \<Rightarrow> nat \<Rightarrow> nat \<Rightarrow> bool" where
  "space3 a b c =
     ((a = 0xE1 \<and> b = 0x9A \<and> c = 0x80)
      \<or> (a = 0xE2 \<and> b = 0x80 \<and> ((0x80 \<le> c \<and> c \<le> 0x8A) \<or> c = 0xA8 \<or> c = 0xA9 \<or> c = 0xAF))
      \<or> (a = 0xE2 \<and> b = 0x81 \<and> c = 0x9F)
      \<or> (a = 0xE3 \<and> b = 0x80 \<and> c = 0x80))"

fun lstrip :: "string \<Rightarrow> string" where
  "lstrip (a # b # c # s) =
     (if space1 (of_char a) then lstrip (b # c # s)
      else if space2 (of_char a) (of_char b) then lstrip (c # s)
      else if space3 (of_char a) (of_char b) (of_char c) then lstrip s
      else a # b # c # s)"
| "lstrip [a, b] =
     (if space1 (of_char a) then lstrip [b]
      else if space2 (of_char a) (of_char b) then []
      else [a, b])"
| "lstrip [a] = (if space1 (of_char a) then [] else [a])"
| "lstrip [] = []"

text \<open>The same from the right, on the reversed string: the bytes of a character come last first.\<close>

fun rstrip_rev :: "string \<Rightarrow> string" where
  "rstrip_rev (c # b # a # s) =
     (if space1 (of_char c) then rstrip_rev (b # a # s)
      else if space2 (of_char b) (of_char c) then rstrip_rev (a # s)
      else if space3 (of_char a) (of_char b) (of_char c) then rstrip_rev s
      else c # b # a # s)"
| "rstrip_rev [b, a] =
     (if space1 (of_char b) then rstrip_rev [a]
      else if space2 (of_char a) (of_char b) then []
      else [b, a])"
| "rstrip_rev [a] = (if space1 (of_char a) then [] else [a])"
| "rstrip_rev [] = []"

text \<open>\<^verbatim>\<open>strip\<close> skips the leading white space, then the trailing white space of the rest.\<close>

definition strip :: "string \<Rightarrow> string" where
  "strip s = rev (rstrip_rev (rev (lstrip s)))"

subsection \<open>The script\<close>

type_synonym fs = "string \<rightharpoonup> string"

text \<open>A \<^verbatim>\<open>dict\<close>: an association list with distinct keys, in insertion order.\<close>

type_synonym env_vars = "(string \<times> string) list"

definition env_file :: string where
  "env_file = ''.env''"

definition encode_secret :: "string \<Rightarrow> string" where
  "encode_secret secret = b64encode secret"

definition split_first :: "char \<Rightarrow> string \<Rightarrow> string \<times> string" where
  "split_first sep s = (takeWhile (\<lambda>c. c \<noteq> sep) s, tl (dropWhile (\<lambda>c. c \<noteq> sep) s))"

definition parse_line :: "env_vars \<Rightarrow> string \<Rightarrow> env_vars" where
  "parse_line env_vars line0 =
     (let line = strip line0 in
      if line \<noteq> [] \<and> \<not> prefix ''#'' line \<and> CHR ''='' \<in> set line
      then (case split_first CHR ''='' line of (key, val) \<Rightarrow> AList.update key val env_vars)
      else env_vars)"

text \<open>
  \<^verbatim>\<open>load_env_file\<close> returns what it prints and its result: \<^const>\<open>None\<close> when the file
  does not exist, the parsed dictionary otherwise.
\<close>

definition parse_env :: "string \<Rightarrow> env_vars" where
  "parse_env content = foldl parse_line [] (text_lines content)"

definition load_env_file :: "fs \<Rightarrow> error + (string list \<times> env_vars option)" where
  "load_env_file files =
     (case files env_file of
        None \<Rightarrow> Inr ([''File .env not found!''], None)
      | Some content \<Rightarrow>
          if \<not> utf8_valid content then Inl UnicodeDecodeError
          else Inr ([], Some (parse_env content)))"

definition secrets_to_encode :: "string list" where
  "secrets_to_encode =
     [''AWS_ACCESS_KEY_ID'', ''AWS_SECRET_ACCESS_KEY'', ''AWS_REGION'', ''CLICKHOUSE_USER'',
      ''CLICKHOUSE_PASSWORD'', ''ES_USER'', ''ES_PASSWORD'']"

text \<open>Opening with mode \<^verbatim>\<open>'a'\<close> and writing: the text goes to the end of the file.\<close>

definition append_file :: "fs \<Rightarrow> string \<Rightarrow> string \<Rightarrow> fs" where
  "append_file files path text =
     files(path \<mapsto> (case files path of None \<Rightarrow> text | Some content \<Rightarrow> content @ text))"

definition b64_line :: "string \<Rightarrow> string \<Rightarrow> string" where
  "b64_line secret_name encoded_value =
     secret_name @ ''_B64='' @ [QUOTE] @ encoded_value @ [QUOTE, LF]"

text \<open>The loop of \<^verbatim>\<open>main\<close> over the target keys; the state is the files and the output.\<close>

fun encode_loop :: "env_vars \<Rightarrow> string list \<Rightarrow> fs \<times> string list \<Rightarrow> fs \<times> string list" where
  "encode_loop env_vars [] st = st"
| "encode_loop env_vars (secret_name # rest) (files, out) =
     (case map_of env_vars secret_name of
        Some original_value \<Rightarrow>
          (let encoded_value = encode_secret original_value
           in encode_loop env_vars rest
                (append_file files env_file (b64_line secret_name encoded_value),
                 out @ [secret_name @ ''_B64='' @ encoded_value]))
      | None \<Rightarrow>
          encode_loop env_vars rest (files, out @ [secret_name @ '' not found in .env file'']))"

text \<open>
  \<^verbatim>\<open>main\<close>: the files and the printed lines after the run, or the exception that ends
  it (raised before anything is written).
\<close>

definition main :: "fs \<Rightarrow> error + (fs \<times> string list)" where
  "main files =
     (case load_env_file files of
        Inl e \<Rightarrow> Inl e
      | Inr (out, None) \<Rightarrow> Inr (files, out)
      | Inr (out, Some env_vars) \<Rightarrow>
          if env_vars = [] then Inr (files, out)
          else Inr (encode_loop env_vars secrets_to_encode (files, out)))"

subsection \<open>The effect of one run, as the specification words it\<close>

text \<open>
  The target keys found in the dictionary with their values, in the order of the list; the
  lines appended for them; and the line printed for a target key.
\<close>

definition present_secrets :: "env_vars \<Rightarrow> (string \<times> string) list" where
  "present_secrets env_vars =
     List.map_filter (\<lambda>k. map_option (Pair k) (map_of env_vars k)) secrets_to_encode"

definition appended_lines :: "env_vars \<Rightarrow> string list" where
  "appended_lines env_vars =
     map (\<lambda>(k, v). b64_line k (encode_secret v)) (present_secrets env_vars)"

definition report :: "env_vars \<Rightarrow> string \<Rightarrow> string" where
  "report env_vars k =
     (case map_of env_vars k of
        Some v \<Rightarrow> k @ ''_B64='' @ encode_secret v
      | None \<Rightarrow> k @ '' not found in .env file'')"

text \<open>A line of the file is skipped when, stripped, it is blank, a comment or has no \<open>=\<close>.\<close>

definition skipped :: "string \<Rightarrow> bool" where
  "skipped line = (strip line = [] \<or> prefix ''#'' (strip line) \<or> CHR ''='' \<notin> set (strip line))"

subsection \<open>Vocabulary of the proofs about the encoder\<close>

text \<open>
  A byte that can belong to a white-space character; the key a line of the file gives the
  dictionary, if any; the texts made of base64 characters; the lines the encoder can write;
  the file after one run; the number of newline-terminated lines of a text; and the texts
  that are empty or end in a line terminator.
\<close>

definition wsbyte :: "char \<Rightarrow> bool" where
  "wsbyte c = (space1 (of_char c) \<or> (0x80::nat) \<le> of_char c)"

definition line_key :: "string \<Rightarrow> string option" where
  "line_key l = (if skipped l then None else Some (takeWhile (\<lambda>c. c \<noteq> CHR ''='') (strip l)))"

definition b64_text :: "string \<Rightarrow> bool" where
  "b64_text e = (set e \<subseteq> set b64_alphabet \<union> {pad})"

definition line_ok :: "string \<Rightarrow> bool" where
  "line_ok l = (\<exists>k e. l = b64_line k e \<and> k \<in> set secrets_to_encode \<and> b64_text e)"

definition file_after :: "string \<Rightarrow> string" where
  "file_after content = content @ concat (appended_lines (parse_env content))"

definition line_count :: "string \<Rightarrow> nat" where
  "line_count content = count_list content LF"

definition terminated :: "string \<Rightarrow> bool" where
  "terminated content = (content = [] \<or> last content = LF \<or> last content = CR)"

section \<open>Test data uploader: \<^verbatim>\<open>scripts/create-test-data.py\<close>\<close>

text \<open>
  A \<^verbatim>\<open>datetime\<close> is the number of microseconds on the clock of its naive calendar,
  counted from 1970-01-01T00:00:00; a \<^verbatim>\<open>float\<close> is the real number it stands for;
  the \<^verbatim>\<open>random\<close> module is a stream of draws from the unit interval, passed through
  the generator. What the uploader prints is left out.
\<close>

subsection \<open>Library: time, random numbers, rounding\<close>

type_synonym datetime = int

definition minute :: int where "minute = 60000000"
definition hour :: int where "hour = 60 * minute"
definition day :: int where "day = 24 * hour"

definition hour_of :: "datetime \<Rightarrow> int" where
  "hour_of t = (t div hour) mod 24"

text \<open>
  \<^verbatim>\<open>pd.date_range(start, end, freq='1min')\<close>: the instants \<open>start\<close>,
  \<open>start + 1min\<close>, ... that do not exceed \<open>end\<close>.
\<close>

function date_range :: "datetime \<Rightarrow> datetime \<Rightarrow> datetime list" where
  "date_range start end = (if start \<le> end then start # date_range (start + minute) end else [])"
  by pat_completeness auto
termination
  by (relation "measure (\<lambda>(start, end). nat (end - start + 1))") (auto simp: minute_def)

declare date_range.simps [simp del]

type_synonym rng = "nat \<Rightarrow> real"

text \<open>\<^verbatim>\<open>random.uniform(a, b)\<close> is \<open>a + (b - a) * random()\<close> and consumes one draw.\<close>

definition random_uniform :: "real \<Rightarrow> real \<Rightarrow> rng \<Rightarrow> real \<times> rng" where
  "random_uniform a b g = (a + (b - a) * g 0, \<lambda>n. g (Suc n))"

text \<open>\<^verbatim>\<open>round(x, 2)\<close>: to the nearest multiple of 1/100, a tie going to the even one.\<close>

definition round2 :: "real \<Rightarrow> real" where
  "round2 x =
     (let y = x * 100; f = \<lfloor>y\<rfloor>; d = y - of_int f
      in (if d < 1 / 2 then of_int f
          else if 1 / 2 < d then of_int (f + 1)
          else if even f then of_int f else of_int (f + 1)) / 100)"

text \<open>Formatting with \<^verbatim>\<open>{device_id:03d}\<close>: decimal digits, padded with zeros to three.\<close>

fun decimal :: "nat \<Rightarrow> string" where
  "decimal n = (if n < 10 then [char_of (48 + n)] else decimal (n div 10) @ [char_of (48 + n mod 10)])"

definition format_03d :: "int \<Rightarrow> string" where
  "format_03d n =
     (let s = (if n < 0 then ''-'' else []); d = decimal (nat \<bar>n\<bar>)
      in s @ replicate (3 - (length s + length d)) CHR ''0'' @ d)"

subsection \<open>\<^verbatim>\<open>generate_sample_data\<close>\<close>

text \<open>
  A row of the frame. The field \<open>timestamp\<close> holds the instant whose ISO-8601 text,
  followed by \<open>Z\<close>, the source stores.
\<close>

record reading =
  timestamp :: datetime
  device_id :: string
  metric_name :: string
  metric_value :: real
  location :: string
  zone :: string

type_synonym frame = "reading list"

text \<open>The body of the inner loop: the three rows of one device at one instant.\<close>

definition device_readings :: "datetime \<Rightarrow> int \<Rightarrow> rng \<Rightarrow> reading list \<times> rng" where
  "device_readings ts dev g0 =
     (let (t0, g1) = random_uniform 20 30 g0;
          (h0, g2) = random_uniform 40 60 g1;
          (p0, g3) = random_uniform 1010 1020 g2;
          temperature = round2 t0;
          humidity = round2 h0;
          pressure = round2 p0;
          (temperature, humidity, g5) =
            (if 6 \<le> hour_of ts \<and> hour_of ts \<le> 18
             then (let (dt, g4) = random_uniform 2 5 g3;
                       (dh, g5) = random_uniform 5 15 g4
                   in (temperature + dt, humidity - dh, g5))
             else (temperature, humidity, g3));
          (loc, zn) =
            (if dev = 1 then (''zone_a'', ''production'')
             else if dev = 2 then (''zone_b'', ''testing'')
             else if dev = 3 then (''zone_c'', ''development'')
             else if dev = 4 then (''zone_d'', ''storage'')
             else (''zone_e'', ''monitoring''));
          name = ''device_'' @ format_03d dev
      in ([\<lparr>timestamp = ts, device_id = name, metric_name = ''temperature'',
             metric_value = max 0 temperature, location = loc, zone = zn\<rparr>,
           \<lparr>timestamp = ts, device_id = name, metric_name = ''humidity'',
             metric_value = max 0 (min 100 humidity), location = loc, zone = zn\<rparr>,
           \<lparr>timestamp = ts, device_id = name, metric_name = ''pressure'',
             metric_value = pressure, location = loc, zone = zn\<rparr>], g5))"

fun devices_loop :: "datetime \<Rightarrow> int list \<Rightarrow> rng \<Rightarrow> reading list \<times> rng" where
  "devices_loop ts [] g = ([], g)"
| "devices_loop ts (dev # devs) g =
     (let (rows, g') = device_readings ts dev g;
          (rest, g'') = devices_loop ts devs g'
      in (rows @ rest, g''))"

fun timestamps_loop :: "datetime list \<Rightarrow> int \<Rightarrow> rng \<Rightarrow> reading list \<times> rng" where
  "timestamps_loop [] num_devices g = ([], g)"
| "timestamps_loop (ts # tss) num_devices g =
     (let (rows, g') = devices_loop ts [1..num_devices] g;
          (rest, g'') = timestamps_loop tss num_devices g'
      in (rows @ rest, g''))"

definition generate_sample_data :: "datetime \<Rightarrow> datetime \<Rightarrow> int \<Rightarrow> rng \<Rightarrow> frame \<times> rng" where
  "generate_sample_data start_date end_date num_devices g =
     timestamps_loop (date_range start_date end_date) num_devices g"

subsection \<open>\<^verbatim>\<open>upload_to_s3\<close>\<close>

text \<open>
  The request of a put-object call; \<open>Body\<close> is the frame whose CSV text is sent. The
  service is a parameter: for the creation of the client and for the \<open>n\<close>-th put-object
  call it says whether the call raises, and with what message.
\<close>

record put_request =
  Bucket :: "string option"
  Key :: string
  Body :: frame
  ContentType :: string

record s3_service =
  create_client :: "string option \<Rightarrow> string option \<Rightarrow> string \<Rightarrow> string option"
  put_object :: "nat \<Rightarrow> put_request \<Rightarrow> string option"

text \<open>
  The world outside: the put-object calls made so far, and the objects stored by those
  that returned.
\<close>

record world =
  put_calls :: "put_request list"
  objects :: "string option \<times> string \<rightharpoonup> frame"

definition upload_to_s3 ::
  "s3_service \<Rightarrow> frame \<Rightarrow> string option \<Rightarrow> string \<Rightarrow> string option \<Rightarrow> string option \<Rightarrow> string
     \<Rightarrow> world \<Rightarrow> bool \<times> world" where
  "upload_to_s3 s3 df bucket_name key aws_access_key_id aws_secret_access_key region w =
     (case create_client s3 aws_access_key_id aws_secret_access_key region of
        Some e \<Rightarrow> (False, w)
      | None \<Rightarrow>
          (let request = \<lparr>Bucket = bucket_name, Key = key, Body = df, ContentType = ''text/csv''\<rparr>;
               w' = w\<lparr>put_calls := put_calls w @ [request]\<rparr>
           in case put_object s3 (length (put_calls w)) request of
                Some e \<Rightarrow> (False, w')
              | None \<Rightarrow> (True, w'\<lparr>objects := (objects w')((bucket_name, key) \<mapsto> df)\<rparr>)))"

subsection \<open>\<^verbatim>\<open>main\<close> of the uploader\<close>

definition getenv :: "(string \<rightharpoonup> string) \<Rightarrow> string \<Rightarrow> string \<Rightarrow> string" where
  "getenv environ name dflt = (case environ name of Some v \<Rightarrow> v | None \<Rightarrow> dflt)"

definition normalize_prefix :: "string \<Rightarrow> string" where
  "normalize_prefix s3_prefix = (if \<not> suffix ''/'' s3_prefix then s3_prefix @ ''/'' else s3_prefix)"

definition test_files :: "string \<Rightarrow> string list" where
  "test_files s3_prefix =
     [s3_prefix @ ''sample-metrics.csv'',
      s3_prefix @ ''daily-metrics-2024-01-15.csv'',
      s3_prefix @ ''hourly-metrics-2024-01-15.csv'']"

text \<open>
  The state of the upload loop: the generator, the world, and for every file so far its
  key with the value \<^verbatim>\<open>upload_to_s3\<close> returned.
\<close>

type_synonym upload_state = "rng \<times> world \<times> (string \<times> bool) list"

fun upload_loop ::
  "s3_service \<Rightarrow> frame \<Rightarrow> datetime \<Rightarrow> string option \<Rightarrow> string option \<Rightarrow> string option \<Rightarrow> string
     \<Rightarrow> string list \<Rightarrow> upload_state \<Rightarrow> upload_state" where
  "upload_loop s3 df end_date s3_bucket key_id secret region [] st = st"
| "upload_loop s3 df end_date s3_bucket key_id secret region (key # keys) (g, w, results) =
     (if sublist ''daily'' key then
        (let daily_start = end_date - 1 * day;
             (daily_df, g') = generate_sample_data daily_start end_date 3 g;
             (success, w') = upload_to_s3 s3 daily_df s3_bucket key key_id secret region w
         in upload_loop s3 df end_date s3_bucket key_id secret region keys
              (g', w', results @ [(key, success)]))
      else if sublist ''hourly'' key then
        (let hourly_start = end_date - 1 * hour;
             (hourly_df, g') = generate_sample_data hourly_start end_date 2 g;
             (success, w') = upload_to_s3 s3 hourly_df s3_bucket key key_id secret region w
         in upload_loop s3 df end_date s3_bucket key_id secret region keys
              (g', w', results @ [(key, success)]))
      else
        (let (success, w') = upload_to_s3 s3 df s3_bucket key key_id secret region w
         in upload_loop s3 df end_date s3_bucket key_id secret region keys
              (g, w', results @ [(key, success)])))"

text \<open>\<open>now\<close> is what \<^verbatim>\<open>datetime.now()\<close> returns.\<close>

definition main_uploader ::
  "(string \<rightharpoonup> string) \<Rightarrow> datetime \<Rightarrow> s3_service \<Rightarrow> rng \<Rightarrow> world \<Rightarrow> upload_state" where
  "main_uploader environ now s3 g w =
     (let aws_access_key_id = environ ''AWS_ACCESS_KEY_ID'';
          aws_secret_access_key = environ ''AWS_SECRET_ACCESS_KEY'';
          aws_region = getenv environ ''AWS_REGION'' ''us-east-1'';
          s3_bucket = environ ''S3_BUCKET_NAME'';
          s3_prefix = normalize_prefix (getenv environ ''S3_PREFIX'' ''data/'');
          end_date = now;
          start_date = end_date - 7 * day;
          (df, g') = generate_sample_data start_date end_date 5 g
      in upload_loop s3 df end_date s3_bucket aws_access_key_id aws_secret_access_key aws_region
           (test_files s3_prefix) (g', w, []))"

subsection \<open>The calls one run of the upload loop makes\<close>

text \<open>
  The frame the loop sends for a key and the generator it goes on with, read off the three
  branches of the loop body; and the requests of a whole run over a list of keys.
\<close>

definition body_for :: "frame \<Rightarrow> datetime \<Rightarrow> rng \<Rightarrow> string \<Rightarrow> frame" where
  "body_for df end_date g key =
     (if sublist ''daily'' key then fst (generate_sample_data (end_date - 1 * day) end_date 3 g)
      else if sublist ''hourly'' key then fst (generate_sample_data (end_date - 1 * hour) end_date 2 g)
      else df)"

definition rng_after :: "datetime \<Rightarrow> rng \<Rightarrow> string \<Rightarrow> rng" where
  "rng_after end_date g key =
     (if sublist ''daily'' key then snd (generate_sample_data (end_date - 1 * day) end_date 3 g)
      else if sublist ''hourly'' key then snd (generate_sample_data (end_date - 1 * hour) end_date 2 g)
      else g)"

fun loop_requests :: "frame \<Rightarrow> datetime \<Rightarrow> string option \<Rightarrow> rng \<Rightarrow> string list \<Rightarrow> put_request list" where
  "loop_requests df end_date bucket g [] = []"
| "loop_requests df end_date bucket g (key # keys) =
     \<lparr>Bucket = bucket, Key = key, Body = body_for df end_date g key, ContentType = ''text/csv''\<rparr>
     # loop_requests df end_date bucket (rng_after end_date g key) keys"

text \<open>A service on which no call raises, one whose put-object raises for one key, and the world before the first call.\<close>

definition ok_service :: s3_service where
  "ok_service = \<lparr>create_client = (\<lambda>_ _ _. None), put_object = (\<lambda>_ _. None)\<rparr>"

definition failing_for :: "string \<Rightarrow> s3_service" where
  "failing_for key =
     \<lparr>create_client = (\<lambda>_ _ _. None),
      put_object = (\<lambda>_ request. if Key request = key then Some ''AccessDenied'' else None)\<rparr>"

definition empty_world :: world where
  "empty_world = \<lparr>put_calls = [], objects = Map.empty\<rparr>"

section \<open>Properties of the encoder\<close>

subsection \<open>Base64: decoding after encoding\<close>

lemma b64_table: "\<forall>i \<in> set [0..<64]. b64_value (b64_char i) = Some i"
  by code_simp

lemma b64_value_char: "i < 64 \<Longrightarrow> b64_value (b64_char i) = Some i"
  using b64_table by simp

lemma b64_value_pad: "b64_value pad = None"
  by code_simp

lemma b64_char_not_pad: "i < 64 \<Longrightarrow> b64_char i \<noteq> pad"
  using b64_value_char [of i] b64_value_pad by auto

lemma sextets2: "i < 64 \<Longrightarrow> j < 64 \<Longrightarrow> sextets [b64_char i, b64_char j] = Some [i, j]"
  by (simp add: sextets_def b64_value_char)

lemma sextets3: "i < 64 \<Longrightarrow> j < 64 \<Longrightarrow> k < 64 \<Longrightarrow>
  sextets [b64_char i, b64_char j, b64_char k] = Some [i, j, k]"
  by (simp add: sextets_def b64_value_char)

lemma sextets4: "i < 64 \<Longrightarrow> j < 64 \<Longrightarrow> k < 64 \<Longrightarrow> l < 64 \<Longrightarrow>
  sextets [b64_char i, b64_char j, b64_char k, b64_char l] = Some [i, j, k, l]"
  by (simp add: sextets_def b64_value_char)

lemma bnd1: "x < 256 \<Longrightarrow> x div 4 < (64::nat)" by simp

lemma bnd2: "y < 256 \<Longrightarrow> (x mod 4) * 16 + y div 16 < (64::nat)"
  by (simp add: less_mult_imp_div_less) 

lemma bnd3: "z < 256 \<Longrightarrow> (y mod 16) * 4 + z div 64 < (64::nat)"
  by (simp add: less_mult_imp_div_less) 

lemma n1: "y < 256 \<Longrightarrow> (y::nat) div 16 div 16 = 0" by (simp add: div_mult2_eq [symmetric])

lemma n2: "y < 256 \<Longrightarrow> (y::nat) div 16 mod 16 = y div 16" by (simp add: less_mult_imp_div_less)

lemma n3: "z < 256 \<Longrightarrow> (z::nat) div 64 div 4 = 0" by (simp add: div_mult2_eq [symmetric])

lemma n4: "z < 256 \<Longrightarrow> (z::nat) div 64 mod 4 = z div 64" by (simp add: less_mult_imp_div_less)

lemma b64_roundtrip: "b64decode (b64encode bs) = Some bs"
proof (induction bs rule: b64encode.induct)
  case (1 a b c rest)
  then show ?case
    by (simp add: Let_def sextets4 bnd1 bnd2 bnd3 b64_char_not_pad n1 n2 n3 n4)
next
  case (2 a b)
  then show ?case
    by (simp add: Let_def sextets3 bnd1 bnd2 b64_char_not_pad n1 n2 n3 n4)
next
  case (3 a)
  then show ?case by (simp add: Let_def sextets2 bnd1 b64_char_not_pad n1 n2 n3 n4)
next
  case 4
  then show ?case by simp
qed

subsection \<open>One run of the encoder\<close>

lemma append_file_Some:
  "files env_file = Some content \<Longrightarrow>
   append_file files env_file t = files(env_file \<mapsto> content @ t)"
  by (simp add: append_file_def)

lemma encode_loop_effect:
  "files env_file = Some content \<Longrightarrow>
   encode_loop env ks (files, out) =
     (files(env_file \<mapsto> content @ concat (map (\<lambda>(k, v). b64_line k (encode_secret v))
        (List.map_filter (\<lambda>k. map_option (Pair k) (map_of env k)) ks))),
      out @ map (report env) ks)"
proof (induction ks arbitrary: files out content)
  case Nil
  then show ?case by (simp add: map_filter_simps fun_upd_idem)
next
  case (Cons k ks)
  show ?case
  proof (cases "map_of env k")
    case None
    with Cons show ?thesis by (simp add: map_filter_simps report_def)
  next
    case (Some v)
    let ?t = "b64_line k (encode_secret v)"
    let ?files = "files(env_file \<mapsto> content @ ?t)"
    have step: "encode_loop env (k # ks) (files, out) =
        encode_loop env ks (?files, out @ [k @ ''_B64='' @ encode_secret v])"
      using Some Cons.prems by (simp add: Let_def append_file_Some)
    have "?files env_file = Some (content @ ?t)" by simp
    note ih = Cons.IH [of ?files "content @ ?t" "out @ [k @ ''_B64='' @ encode_secret v]", OF this]
    have mf: "List.map_filter (\<lambda>k. map_option (Pair k) (map_of env k)) (k # ks)
        = (k, v) # List.map_filter (\<lambda>k. map_option (Pair k) (map_of env k)) ks"
      using Some by (simp add: map_filter_simps)
    have rp: "report env k = k @ ''_B64='' @ encode_secret v"
      using Some by (simp add: report_def)
    show ?thesis
      apply (subst step)
      apply (subst ih)
      apply (subst mf)
      apply (simp add: rp)
      done
  qed
qed

lemma main_effect:
  assumes "files env_file = Some content" "utf8_valid content"
  shows "main files =
     Inr (files(env_file \<mapsto> content @ concat (appended_lines (parse_env content))),
          if parse_env content = [] then [] else map (report (parse_env content)) secrets_to_encode)"
proof (cases "parse_env content = []")
  case True
  then show ?thesis using assms
    by (simp add: main_def load_env_file_def appended_lines_def present_secrets_def
        map_filter_def fun_upd_idem)
next
  case False
  then show ?thesis using assms encode_loop_effect [of files content "parse_env content" secrets_to_encode "[]"]
    by (simp add: main_def load_env_file_def appended_lines_def present_secrets_def)
qed

lemma parse_line_keys:
  "fst ` set (parse_line env l) =
     fst ` set env \<union> (if skipped l then {} else {takeWhile (\<lambda>c. c \<noteq> CHR ''='') (strip l)})"
  by (auto simp: parse_line_def skipped_def Let_def split_first_def AList.dom_update)

lemma parse_keys:
  "fst ` set (foldl parse_line env ls) =
     fst ` set env \<union> {takeWhile (\<lambda>c. c \<noteq> CHR ''='') (strip l) | l. l \<in> set ls \<and> \<not> skipped l}"
proof (induction ls arbitrary: env)
  case Nil
  then show ?case by simp
next
  case (Cons l ls)
  show ?case unfolding foldl_Cons Cons.IH parse_line_keys by auto
qed

lemma parse_env_empty_iff:
  "parse_env content = [] \<longleftrightarrow> (\<forall>l \<in> set (text_lines content). skipped l)"
proof -
  have "parse_env content = [] \<longleftrightarrow> fst ` set (parse_env content) = {}" by simp
  also have "\<dots> \<longleftrightarrow> (\<forall>l \<in> set (text_lines content). skipped l)"
    unfolding parse_env_def parse_keys by auto
  finally show ?thesis .
qed

subsection \<open>Appending ASCII lines to a file\<close>

lemma utf8_scan_0: "utf8_scan 0 lo hi a = utf8_scan 0 0x80 0xBF a"
  by (cases a) simp_all

lemma utf8_scan_append:
  "utf8_scan n lo hi c \<Longrightarrow> utf8_scan 0 0x80 0xBF a \<Longrightarrow> utf8_scan n lo hi (c @ a)"
proof (induction c arbitrary: n lo hi)
  case Nil
  then show ?case using utf8_scan_0 [of lo hi a] by simp
next
  case (Cons x c)
  from Cons.prems show ?case
    by (auto simp: Let_def Cons.IH split: if_splits)
qed

lemma utf8_scan_ascii:
  "\<forall>x \<in> set a. (of_char x :: nat) < 0x80 \<Longrightarrow> utf8_scan 0 0x80 0xBF a"
  by (induction a) (simp_all add: Let_def)

lemma utf8_valid_append_ascii:
  "utf8_valid c \<Longrightarrow> \<forall>x \<in> set a. (of_char x :: nat) < 0x80 \<Longrightarrow> utf8_valid (c @ a)"
  unfolding utf8_valid_def by (rule utf8_scan_append) (auto intro: utf8_scan_ascii)

lemma universal_newlines_id: "CR \<notin> set a \<Longrightarrow> universal_newlines a = a"
  by (induction a rule: universal_newlines.induct) auto

lemma universal_newlines_append:
  "CR \<notin> set a \<Longrightarrow> a = [] \<or> hd a \<noteq> LF \<Longrightarrow>
   universal_newlines (c @ a) = universal_newlines c @ a"
proof (induction c rule: universal_newlines.induct)
  case 1
  then show ?case by (simp add: universal_newlines_id)
next
  case (2 c)
  then show ?case by (cases a) (auto simp: universal_newlines_id)
next
  case (3 c d cs)
  then show ?case by auto
qed

lemma lines_from_line:
  "LF \<notin> set l \<Longrightarrow> lines_from cur (l @ LF # rest) = (cur @ l @ [LF]) # lines_from [] rest"
  by (induction l arbitrary: cur) auto

subsection \<open>Stripping a line that ends in an appended record\<close>

lemma lstrip_stop:
  assumes "\<not> wsbyte x"
  shows "lstrip (x # xs) = x # xs"
proof (cases xs)
  case Nil
  then show ?thesis using assms by (simp add: wsbyte_def)
next
  case (Cons y ys)
  then show ?thesis using assms by (cases ys) (auto simp: wsbyte_def space2_def space3_def)
qed

lemma lstrip_append:
  "\<not> wsbyte x \<Longrightarrow>
   lstrip (cur @ x # xs) = (if lstrip cur = [] then x # xs else lstrip cur @ x # xs)"
proof (induction cur rule: lstrip.induct)
  case (1 a b c s)
  then show ?case by (auto simp: lstrip_stop)
next
  case (2 a b)
  then show ?case by (auto simp: lstrip_stop wsbyte_def space3_def)
next
  case (3 a)
  then show ?case by (cases xs) (auto simp: lstrip_stop wsbyte_def space2_def space3_def)
next
  case 4
  then show ?case by (simp add: lstrip_stop)
qed

lemma rstrip_stop:
  assumes "\<not> wsbyte c"
  shows "rstrip_rev (c # s) = c # s"
proof (cases s)
  case Nil
  then show ?thesis using assms by (simp add: wsbyte_def)
next
  case (Cons y ys)
  then show ?thesis using assms by (cases ys) (auto simp: wsbyte_def space2_def space3_def)
qed

lemma rstrip_space:
  assumes "space1 (of_char c)"
  shows "rstrip_rev (c # s) = rstrip_rev s"
proof (cases s)
  case Nil
  then show ?thesis using assms by simp
next
  case (Cons y ys)
  then show ?thesis using assms by (cases ys) auto
qed

lemma space2_wsbyte: "space2 (of_char a) (of_char b) \<Longrightarrow> wsbyte a \<and> wsbyte b"
  by (auto simp: space2_def wsbyte_def)

lemma space3_wsbyte:
  "space3 (of_char a) (of_char b) (of_char c) \<Longrightarrow> wsbyte a \<and> wsbyte b \<and> wsbyte c"
  by (auto simp: space3_def wsbyte_def)

lemma rstrip_decomp: "\<exists>w. x = w @ rstrip_rev x \<and> (\<forall>c \<in> set w. wsbyte c)"
proof (induction x rule: rstrip_rev.induct)
  case (1 c b a s)
  show ?case
  proof (cases "space1 (of_char c)")
    case True
    with 1(1) obtain w where "b # a # s = w @ rstrip_rev (b # a # s)" "\<forall>c \<in> set w. wsbyte c"
      by blast
    then have "c # b # a # s = (c # w) @ rstrip_rev (c # b # a # s) \<and> (\<forall>x \<in> set (c # w). wsbyte x)"
      using True by (simp add: wsbyte_def)
    then show ?thesis by blast
  next
    case s1: False
    show ?thesis
    proof (cases "space2 (of_char b) (of_char c)")
      case True
      with 1(2) s1 obtain w where "a # s = w @ rstrip_rev (a # s)" "\<forall>c \<in> set w. wsbyte c"
        by blast
      then have "c # b # a # s = (c # b # w) @ rstrip_rev (c # b # a # s)
          \<and> (\<forall>x \<in> set (c # b # w). wsbyte x)"
        using True s1 space2_wsbyte [OF True] by simp
      then show ?thesis by blast
    next
      case s2: False
      show ?thesis
      proof (cases "space3 (of_char a) (of_char b) (of_char c)")
        case True
        with 1(3) s1 s2 obtain w where "s = w @ rstrip_rev s" "\<forall>c \<in> set w. wsbyte c"
          by blast
        then have "c # b # a # s = (c # b # a # w) @ rstrip_rev (c # b # a # s)
            \<and> (\<forall>x \<in> set (c # b # a # w). wsbyte x)"
          using True s1 s2 space3_wsbyte [OF True] by simp
        then show ?thesis by blast
      next
        case False
        then have "c # b # a # s = [] @ rstrip_rev (c # b # a # s)" using s1 s2 by simp
        then show ?thesis by (metis empty_iff list.set(1))
      qed
    qed
  qed
next
  case (2 b a)
  show ?case
  proof (cases "space1 (of_char b)")
    case True
    with 2 obtain w where "[a] = w @ rstrip_rev [a]" "\<forall>c \<in> set w. wsbyte c" by blast
    then have "[b, a] = (b # w) @ rstrip_rev [b, a] \<and> (\<forall>x \<in> set (b # w). wsbyte x)"
      using True by (simp add: wsbyte_def)
    then show ?thesis by blast
  next
    case s1: False
    show ?thesis
    proof (cases "space2 (of_char a) (of_char b)")
      case True
      then have "[b, a] = [b, a] @ rstrip_rev [b, a] \<and> (\<forall>x \<in> set [b, a]. wsbyte x)"
        using s1 space2_wsbyte [OF True] by simp
      then show ?thesis by blast
    next
      case False
      then have "[b, a] = [] @ rstrip_rev [b, a]" using s1 by simp
      then show ?thesis by (metis empty_iff list.set(1))
    qed
  qed
next
  case (3 a)
  show ?case
  proof (cases "space1 (of_char a)")
    case True
    then have "[a] = [a] @ rstrip_rev [a] \<and> (\<forall>x \<in> set [a]. wsbyte x)"
      by (simp add: wsbyte_def)
    then show ?thesis by blast
  next
    case False
    then have "[a] = [] @ rstrip_rev [a]" by simp
    then show ?thesis by (metis empty_iff list.set(1))
  qed
next
  case 4
  show ?case by simp
qed

lemma strip_decomp: "\<exists>w. lstrip cur = strip cur @ w \<and> (\<forall>c \<in> set w. wsbyte c)"
proof -
  obtain w where w: "rev (lstrip cur) = w @ rstrip_rev (rev (lstrip cur))" "\<forall>c \<in> set w. wsbyte c"
    using rstrip_decomp by blast
  from w(1) have "lstrip cur = rev (w @ rstrip_rev (rev (lstrip cur)))"
    by (metis rev_rev_ident)
  then have "lstrip cur = strip cur @ rev w" by (simp add: strip_def)
  with w(2) show ?thesis by (metis set_rev)
qed

lemma LF_space: "space1 (of_char LF)"
  by (simp add: LF_def space1_def)

lemma strip_line:
  assumes "\<not> wsbyte x" "\<not> wsbyte q"
  shows "strip (cur @ x # xs @ [q, LF]) =
    (if lstrip cur = [] then x # xs @ [q] else lstrip cur @ x # xs @ [q])"
  using assms by (simp add: strip_def lstrip_append rstrip_space LF_space rstrip_stop)

lemma prefix_hash: "prefix ''#'' l \<longleftrightarrow> l \<noteq> [] \<and> hd l = CHR ''#''"
  by (cases l) auto

lemma eq_not_wsbyte: "\<not> wsbyte CHR ''=''"
  by (simp add: wsbyte_def space1_def)

lemma takeWhile_upto: "c \<notin> set ys \<Longrightarrow> takeWhile (\<lambda>a. a \<noteq> c) (ys @ c # zs) = ys"
  by (induction ys) auto

lemma takeWhile_within: "c \<in> set ys \<Longrightarrow> takeWhile (\<lambda>a. a \<noteq> c) (ys @ zs) = takeWhile (\<lambda>a. a \<noteq> c) ys"
  by (induction ys) auto

lemma takeWhile_beyond:
  "c \<notin> set ys \<Longrightarrow> takeWhile (\<lambda>a. a \<noteq> c) (ys @ zs) = ys @ takeWhile (\<lambda>a. a \<noteq> c) zs"
  by (induction ys) auto

lemma line_key_eq:
  "line_key l = Some t \<longleftrightarrow>
     strip l \<noteq> [] \<and> hd (strip l) \<noteq> CHR ''#'' \<and> CHR ''='' \<in> set (strip l)
     \<and> takeWhile (\<lambda>c. c \<noteq> CHR ''='') (strip l) = t"
  by (auto simp: line_key_def skipped_def prefix_hash)

lemma line_key_merged:
  assumes x: "\<not> wsbyte x" "x \<noteq> CHR ''#''" and q: "\<not> wsbyte q"
    and K: "CHR ''='' \<notin> set (x # xs)" and t: "\<not> suffix (x # xs) t"
  shows "line_key (cur @ (x # xs) @ CHR ''='' # mid @ [q, LF]) = Some t \<longleftrightarrow> line_key cur = Some t"
proof -
  let ?eq = "\<lambda>c. c \<noteq> CHR ''=''"
  let ?body = "(x # xs) @ CHR ''='' # mid @ [q]"
  let ?line = "cur @ (x # xs) @ CHR ''='' # mid @ [q, LF]"
  obtain w where w: "lstrip cur = strip cur @ w" "\<forall>c \<in> set w. wsbyte c"
    using strip_decomp by blast
  have weq: "CHR ''='' \<notin> set w" using w(2) eq_not_wsbyte by blast
  have st: "strip ?line = (if lstrip cur = [] then ?body else lstrip cur @ ?body)"
    using strip_line [OF x(1) q, of cur "xs @ CHR ''='' # mid"] by simp
  have tk_body: "takeWhile ?eq ?body = x # xs"
    using takeWhile_upto [OF K, of "mid @ [q]"] by simp
  have body_ne: "?body \<noteq> []" by simp
  have body_eq: "CHR ''='' \<in> set ?body" by simp
  have body_hd: "hd ?body = x" by simp
  show ?thesis
  proof (cases "lstrip cur = []")
    case True
    then have "strip cur = []" using w(1) by simp
    then have r: "line_key cur \<noteq> Some t" by (simp add: line_key_eq)
    have s: "strip ?line = ?body" using st True by simp
    have "t \<noteq> x # xs" using t by auto
    then have "line_key ?line \<noteq> Some t"
      unfolding line_key_eq s tk_body by blast
    then show ?thesis using r by blast
  next
    case False
    have s: "strip ?line = lstrip cur @ ?body" using st False by simp
    have ne: "strip ?line \<noteq> []" unfolding s using False by blast
    have hd: "hd (strip ?line) = hd (lstrip cur)" unfolding s using False by (rule hd_append2)
    have ine: "CHR ''='' \<in> set (strip ?line)" unfolding s using body_eq by (simp only: set_append Un_iff simp_thms)
    show ?thesis
    proof (cases "CHR ''='' \<in> set (lstrip cur)")
      case True
      then have in': "CHR ''='' \<in> set (strip cur)" using w(1) weq by auto
      then have ne': "strip cur \<noteq> []" by auto
      have hd': "hd (lstrip cur) = hd (strip cur)" using w(1) ne' by simp
      have "takeWhile ?eq (strip ?line) = takeWhile ?eq (lstrip cur)"
        unfolding s using True by (rule takeWhile_within)
      also have "\<dots> = takeWhile ?eq (strip cur)"
        unfolding w(1) using in' by (rule takeWhile_within)
      finally have tk1: "takeWhile ?eq (strip ?line) = takeWhile ?eq (strip cur)" .
      show ?thesis
        unfolding line_key_eq tk1 hd hd' using ne ne' ine in' by blast
    next
      case nin: False
      then have "CHR ''='' \<notin> set (strip cur)" using w(1) by auto
      then have r: "line_key cur \<noteq> Some t" by (simp add: line_key_eq)
      have "takeWhile ?eq (strip ?line) = lstrip cur @ takeWhile ?eq ?body"
        unfolding s using nin by (rule takeWhile_beyond)
      then have tk2: "takeWhile ?eq (strip ?line) = lstrip cur @ x # xs"
        unfolding tk_body .
      have "t \<noteq> lstrip cur @ x # xs" using t by (auto simp: suffix_def)
      then have "line_key ?line \<noteq> Some t"
        unfolding line_key_eq tk2 by blast
      then show ?thesis using r by blast
    qed
  qed
qed

subsection \<open>The appended lines bring no target key\<close>

lemma b64_char_in: "b64_char i \<in> set b64_alphabet"
  unfolding b64_char_def by (rule nth_mem) (simp add: b64_alphabet_def)

lemma b64encode_text: "b64_text (b64encode v)"
  unfolding b64_text_def
  by (induction v rule: b64encode.induct) (auto simp: Let_def b64_char_in)

lemma b64_text_chars:
  assumes "b64_text e" "c \<in> set e"
  shows "(of_char c :: nat) < 0x80 \<and> c \<noteq> LF \<and> c \<noteq> CR"
proof -
  have "\<forall>c \<in> set b64_alphabet \<union> {pad}. (of_char c :: nat) < 0x80 \<and> c \<noteq> LF \<and> c \<noteq> CR"
    by (simp add: b64_alphabet_def pad_def LF_def CR_def)
  then show ?thesis using assms unfolding b64_text_def by blast
qed

lemma secret_chars:
  "\<forall>k \<in> set secrets_to_encode. \<forall>c \<in> set (k @ ''_B64=''). (of_char c :: nat) < 0x80 \<and> c \<noteq> LF \<and> c \<noteq> CR"
  by (simp add: secrets_to_encode_def LF_def CR_def)

lemma secret_head:
  "\<forall>k \<in> set secrets_to_encode. \<exists>x xs. k @ ''_B64'' = x # xs \<and> \<not> wsbyte x \<and> x \<noteq> CHR ''#''
      \<and> x \<noteq> LF \<and> CHR ''='' \<notin> set (x # xs)"
  by (simp add: secrets_to_encode_def wsbyte_def space1_def LF_def)

lemma secret_suffix: "\<forall>t \<in> set secrets_to_encode. \<not> suffix ''_B64'' t"
  by (simp add: secrets_to_encode_def suffix_to_prefix)

lemma quote_not_wsbyte: "\<not> wsbyte QUOTE"
  by (simp add: wsbyte_def space1_def QUOTE_def)

lemma line_key_Nil: "line_key [] = None"
  by (simp add: line_key_def skipped_def strip_def)

lemma line_ok_key:
  assumes "line_ok l" "t \<in> set secrets_to_encode"
  shows "line_key (cur @ l) = Some t \<longleftrightarrow> line_key cur = Some t"
proof -
  from assms(1) obtain k e where l: "l = b64_line k e" "k \<in> set secrets_to_encode"
    unfolding line_ok_def by blast
  from secret_head l(2) obtain x xs where x: "k @ ''_B64'' = x # xs" "\<not> wsbyte x"
    "x \<noteq> CHR ''#''" "CHR ''='' \<notin> set (x # xs)" by blast
  have "suffix ''_B64'' (x # xs)" unfolding x(1) [symmetric] by (rule suffixI) simp
  then have suf: "\<not> suffix (x # xs) t"
    using secret_suffix assms(2) suffix_order.trans by blast
  have "l = (x # xs) @ CHR ''='' # (QUOTE # e) @ [QUOTE, LF]"
    unfolding l(1) b64_line_def x(1) [symmetric] by simp
  then show ?thesis
    using line_key_merged [OF x(2) x(3) quote_not_wsbyte x(4) suf, of cur "QUOTE # e"] by simp
qed

lemma line_ok_split:
  assumes "line_ok l"
  shows "\<exists>b. l = b @ [LF] \<and> LF \<notin> set b \<and> CR \<notin> set l \<and> hd l \<noteq> LF \<and> l \<noteq> []
    \<and> (\<forall>c \<in> set l. (of_char c :: nat) < 0x80)"
proof -
  let ?P = "\<lambda>c. (of_char c :: nat) < 0x80 \<and> c \<noteq> LF \<and> c \<noteq> CR"
  from assms obtain k e where l: "l = b64_line k e" "k \<in> set secrets_to_encode" "b64_text e"
    unfolding line_ok_def by blast
  define p where "p = k @ ''_B64=''"
  define b where "b = p @ [QUOTE] @ e @ [QUOTE]"
  have pre: "\<forall>c \<in> set p. ?P c"
    unfolding p_def using secret_chars l(2) by blast
  have e: "\<forall>c \<in> set e. ?P c"
    using b64_text_chars [OF l(3)] by blast
  have q: "?P QUOTE"
    by (simp add: QUOTE_def LF_def CR_def)
  have b: "\<forall>c \<in> set b. ?P c"
    unfolding b_def using pre e q by auto
  have lb: "l = b @ [LF]" unfolding l(1) b64_line_def b_def p_def by simp
  from secret_head l(2) obtain x xs where x: "k @ ''_B64'' = x # xs" "x \<noteq> LF" by blast
  have "p = (k @ ''_B64'') @ ''=''" unfolding p_def by simp
  then have "p = x # xs @ ''=''" unfolding x(1) by simp
  then have "l = x # (xs @ ''='') @ [QUOTE] @ e @ [QUOTE] @ [LF]" unfolding lb b_def by simp
  then have hd: "hd l = x" by simp
  have 1: "LF \<notin> set b" using b by blast
  have 2: "CR \<notin> set l" unfolding lb using b by (auto simp: LF_def CR_def)
  have 3: "\<forall>c \<in> set l. (of_char c :: nat) < 0x80" unfolding lb using b by (auto simp: LF_def)
  have 4: "l \<noteq> []" unfolding lb by simp
  show ?thesis using lb 1 2 3 4 hd x(2) by blast
qed

lemma lines_ok_concat:
  assumes "\<forall>l \<in> set ls. line_ok l"
  shows "CR \<notin> set (concat ls) \<and> (concat ls = [] \<or> hd (concat ls) \<noteq> LF)
    \<and> (\<forall>c \<in> set (concat ls). (of_char c :: nat) < 0x80)"
  using assms
proof (induction ls)
  case Nil
  then show ?case by simp
next
  case (Cons l ls)
  then have "line_ok l" by simp
  from line_ok_split [OF this] have l: "CR \<notin> set l" "hd l \<noteq> LF" "l \<noteq> []"
    "\<forall>c \<in> set l. (of_char c :: nat) < 0x80" by blast+
  have "hd (concat (l # ls)) = hd l" using l(3) by simp
  then show ?case using l Cons by auto
qed

lemma lines_from_ok:
  assumes "\<forall>l \<in> set ls. line_ok l" "t \<in> set secrets_to_encode"
  shows "(\<exists>l \<in> set (lines_from cur (concat ls)). line_key l = Some t) \<longleftrightarrow> line_key cur = Some t"
  using assms(1)
proof (induction ls arbitrary: cur)
  case Nil
  then show ?case by (auto simp: line_key_Nil)
next
  case (Cons l ls)
  then have ok: "line_ok l" by simp
  from line_ok_split [OF ok] obtain b where b: "l = b @ [LF]" "LF \<notin> set b" by blast
  have "lines_from cur (concat (l # ls)) = (cur @ l) # lines_from [] (concat ls)"
    using lines_from_line [OF b(2), of cur "concat ls"] b(1) by simp
  moreover have "\<not> (\<exists>l \<in> set (lines_from [] (concat ls)). line_key l = Some t)"
    using Cons.IH [of "[]"] Cons.prems by (simp add: line_key_Nil)
  ultimately show ?case using line_ok_key [OF ok assms(2), of cur] by simp
qed

lemma lines_from_append_ok:
  assumes "\<forall>l \<in> set ls. line_ok l" "t \<in> set secrets_to_encode"
  shows "(\<exists>l \<in> set (lines_from cur (u @ concat ls)). line_key l = Some t)
     \<longleftrightarrow> (\<exists>l \<in> set (lines_from cur u). line_key l = Some t)"
proof (induction u arbitrary: cur)
  case Nil
  show ?case using lines_from_ok [OF assms, of cur] by (auto simp: line_key_Nil)
next
  case (Cons c u)
  show ?case using Cons.IH [of "[]"] Cons.IH [of "cur @ [c]"] by simp
qed

lemma parse_keys':
  "fst ` set (foldl parse_line env ls) = fst ` set env \<union> {k. \<exists>l \<in> set ls. line_key l = Some k}"
  unfolding parse_keys by (auto simp: line_key_def)

lemma parse_env_append_ok:
  assumes "\<forall>l \<in> set ls. line_ok l" "t \<in> set secrets_to_encode"
  shows "t \<in> fst ` set (parse_env (content @ concat ls)) \<longleftrightarrow> t \<in> fst ` set (parse_env content)"
proof -
  from lines_ok_concat [OF assms(1)]
  have "universal_newlines (content @ concat ls) = universal_newlines content @ concat ls"
    by (intro universal_newlines_append) auto
  then show ?thesis
    unfolding parse_env_def text_lines_def parse_keys'
    using lines_from_append_ok [OF assms, of "[]" "universal_newlines content"] by simp
qed

subsection \<open>The target keys found, before and after a run\<close>

lemma map_of_None_iff: "map_of env k = None \<longleftrightarrow> k \<notin> fst ` set env"
  by (simp add: map_of_eq_None_iff)

lemma present_fst:
  "map fst (List.map_filter (\<lambda>k. map_option (Pair k) (map_of env k)) ks)
     = filter (\<lambda>k. k \<in> fst ` set env) ks"
proof (induction ks)
  case Nil
  then show ?case by (simp add: map_filter_simps)
next
  case (Cons k ks)
  show ?case
  proof (cases "map_of env k")
    case None
    then have "k \<notin> fst ` set env" by (simp add: map_of_None_iff)
    then show ?thesis using None Cons by (simp add: map_filter_simps)
  next
    case (Some v)
    then have "k \<in> fst ` set env" using map_of_None_iff [of env k] by simp
    then show ?thesis using Some Cons by (simp add: map_filter_simps)
  qed
qed

lemma present_secrets_keys:
  "map fst (present_secrets env) = filter (\<lambda>k. k \<in> fst ` set env) secrets_to_encode"
  unfolding present_secrets_def by (rule present_fst)

lemma present_secrets_mem:
  "(k, v) \<in> set (present_secrets env) \<longleftrightarrow> k \<in> set secrets_to_encode \<and> map_of env k = Some v"
  unfolding present_secrets_def by (force simp: map_filter_def)

lemma appended_lines_ok: "\<forall>l \<in> set (appended_lines env). line_ok l"
proof
  fix l assume "l \<in> set (appended_lines env)"
  then obtain k v where kv: "(k, v) \<in> set (present_secrets env)" "l = b64_line k (encode_secret v)"
    unfolding appended_lines_def by auto
  from kv(1) have "k \<in> set secrets_to_encode" by (simp add: present_secrets_mem)
  moreover have "b64_text (encode_secret v)" by (simp add: encode_secret_def b64encode_text)
  ultimately show "line_ok l" unfolding line_ok_def using kv(2) by blast
qed

lemma file_after_valid: "utf8_valid content \<Longrightarrow> utf8_valid (file_after content)"
  unfolding file_after_def
  using lines_ok_concat [OF appended_lines_ok] by (intro utf8_valid_append_ascii) auto

lemma present_after:
  "map fst (present_secrets (parse_env (file_after content)))
     = map fst (present_secrets (parse_env content))"
  unfolding present_secrets_keys file_after_def
  by (rule filter_cong [OF refl]) (rule parse_env_append_ok [OF appended_lines_ok])

lemma count_lines_ok:
  "\<forall>l \<in> set ls. line_ok l \<Longrightarrow> count_list (concat ls) LF = length ls"
proof (induction ls)
  case Nil
  then show ?case by simp
next
  case (Cons l ls)
  then have "line_ok l" by simp
  from line_ok_split [OF this] obtain b where b: "l = b @ [LF]" "LF \<notin> set b" by blast
  then have "count_list l LF = 1" by (simp add: count_list_0_iff [THEN iffD2])
  with Cons show ?case by simp
qed

lemma line_count_after:
  "line_count (file_after content) = line_count content + length (present_secrets (parse_env content))"
  unfolding line_count_def file_after_def
  using count_lines_ok [OF appended_lines_ok, of "parse_env content"]
  by (simp add: appended_lines_def)

lemma key_prefix:
  "\<forall>k \<in> set secrets_to_encode. \<forall>k' \<in> set secrets_to_encode.
     prefix (k @ ''_B64='') (b64_line k' e) \<longleftrightarrow> k = k'"
  by (simp add: secrets_to_encode_def b64_line_def)

lemma distinct_secrets: "distinct secrets_to_encode"
  by (simp add: secrets_to_encode_def)

lemma distinct_filter_eq:
  "distinct xs \<Longrightarrow> length (filter (\<lambda>x. x = k) xs) = (if k \<in> set xs then 1 else 0)"
  by (induction xs) auto

lemma count_b64_lines:
  assumes "k \<in> set secrets_to_encode"
  shows "length (filter (prefix (k @ ''_B64='')) (appended_lines env))
     = (if k \<in> fst ` set env then 1 else 0)"
proof -
  let ?f = "\<lambda>(k, v). b64_line k (encode_secret v)"
  have "filter (prefix (k @ ''_B64='') \<circ> ?f) (present_secrets env)
      = filter (\<lambda>p. fst p = k) (present_secrets env)"
  proof (rule filter_cong [OF refl])
    fix p assume "p \<in> set (present_secrets env)"
    then have "fst p \<in> set secrets_to_encode"
      using present_secrets_mem [of "fst p" "snd p" env] by simp
    then show "(prefix (k @ ''_B64='') \<circ> ?f) p = (fst p = k)"
      using key_prefix [of "encode_secret (snd p)"] assms by (cases p) auto
  qed
  then have "length (filter (prefix (k @ ''_B64='')) (appended_lines env))
      = length (filter (\<lambda>p. fst p = k) (present_secrets env))"
    unfolding appended_lines_def by simp
  also have "\<dots> = length (filter (\<lambda>x. x = k) (map fst (present_secrets env)))"
    by (simp add: comp_def)
  also have "\<dots> = (if k \<in> set (map fst (present_secrets env)) then 1 else 0)"
    by (rule distinct_filter_eq) (simp add: present_secrets_keys distinct_secrets)
  also have "\<dots> = (if k \<in> fst ` set env then 1 else 0)"
    unfolding present_secrets_keys using assms by simp
  finally show ?thesis .
qed

subsection \<open>The claims about the encoder\<close>

lemma b64_line_inj: "b64_line k e = b64_line k e' \<Longrightarrow> e = e'"
  by (simp add: b64_line_def)

lemma b64_line_prefix: "prefix (k @ ''_B64='') (b64_line k e)"
  by (simp add: b64_line_def)

lemma b64_line_key:
  assumes "k \<in> set secrets_to_encode" "k' \<in> set secrets_to_encode" "b64_line k e = b64_line k' e'"
  shows "k = k' \<and> e = e'"
proof -
  have "prefix (k @ ''_B64='') (b64_line k' e')"
    using b64_line_prefix [of k e] assms(3) by simp
  then have "k = k'" using key_prefix [of e'] assms(1,2) by blast
  then show ?thesis using assms(3) b64_line_inj by blast
qed

lemma appended_lines_mem:
  "l \<in> set (appended_lines env) \<longleftrightarrow>
     (\<exists>k v. k \<in> set secrets_to_encode \<and> map_of env k = Some v \<and> l = b64_line k (encode_secret v))"
  unfolding appended_lines_def by (force simp: present_secrets_mem)

lemma sample_valid: "utf8_valid ''AWS_REGION=us\<newline>''"
  by code_simp

lemma sample_parse: "parse_env ''AWS_REGION=us\<newline>'' = [(''AWS_REGION'', ''us'')]"
  by code_simp

lemma comment_valid: "utf8_valid ''#''"
  by code_simp

lemma comment_parse: "parse_env ''#'' = []"
  by code_simp

text \<open>
  C8: if the configuration file does not exist, the encoder prints that it was not found
  and nothing else (no line for any key), and leaves every file as it was.
\<close>

theorem missing_file_no_action:
  "files env_file = None \<Longrightarrow> main files = Inr (files, [''File .env not found!''])"
  by (simp add: main_def load_env_file_def)

theorem missing_file_no_action_witness:
  "Map.empty env_file = None \<and> main Map.empty = Inr (Map.empty, [''File .env not found!''])"
  using missing_file_no_action [of Map.empty] by simp

lemma appended_lines_eq:
  "appended_lines env
     = List.map_filter (\<lambda>k. map_option (\<lambda>v. b64_line k (encode_secret v)) (map_of env k))
         secrets_to_encode"
proof -
  have "map (\<lambda>(k, v). b64_line k (encode_secret v))
          (List.map_filter (\<lambda>k. map_option (Pair k) (map_of env k)) ks)
        = List.map_filter (\<lambda>k. map_option (\<lambda>v. b64_line k (encode_secret v)) (map_of env k)) ks"
    for ks
    by (induction ks) (auto simp: map_filter_def)
  then show ?thesis by (simp add: appended_lines_def present_secrets_def)
qed

lemma report_eq:
  "report env = (\<lambda>k. case map_of env k of
                       Some v \<Rightarrow> k @ ''_B64='' @ encode_secret v
                     | None \<Rightarrow> k @ '' not found in .env file'')"
  by (rule ext) (simp add: report_def)

text \<open>
  C9, amended: a run on an existing file is pinned completely. The file becomes the
  original text followed by the lines \<open>KEY_B64='...'\<close>, one for each target key the
  dictionary holds, in the order of the list of target keys, and every other file is as
  before; nothing is appended for a target key the dictionary lacks, and no appended line
  belongs to another key. The printed output is empty when the dictionary is empty;
  otherwise it is exactly one line for each of the seven target keys, in order:
  \<open>KEY_B64=...\<close> for a key the dictionary holds and \<open>KEY not found in .env file\<close> for a
  key it lacks. Nothing is printed or written for any other key.
\<close>

theorem run_frame:
  assumes "files env_file = Some content" "utf8_valid content"
  shows "main files =
      Inr (files(env_file \<mapsto> content @ concat (appended_lines (parse_env content))),
           if parse_env content = [] then []
           else map (\<lambda>k. case map_of (parse_env content) k of
                            Some v \<Rightarrow> k @ ''_B64='' @ encode_secret v
                          | None \<Rightarrow> k @ '' not found in .env file'')
                  secrets_to_encode)
    \<and> appended_lines (parse_env content)
        = List.map_filter
            (\<lambda>k. map_option (\<lambda>v. b64_line k (encode_secret v)) (map_of (parse_env content) k))
            secrets_to_encode
    \<and> (\<forall>l \<in> set (appended_lines (parse_env content)).
          \<exists>k v. k \<in> set secrets_to_encode \<and> map_of (parse_env content) k = Some v
                \<and> l = b64_line k (encode_secret v))
    \<and> (\<forall>k \<in> set secrets_to_encode. map_of (parse_env content) k = None \<longrightarrow>
          (\<forall>e. b64_line k e \<notin> set (appended_lines (parse_env content))))"
proof -
  let ?env = "parse_env content"
  have m: "main files = Inr (files(env_file \<mapsto> content @ concat (appended_lines ?env)),
      if ?env = [] then []
      else map (\<lambda>k. case map_of ?env k of
                       Some v \<Rightarrow> k @ ''_B64='' @ encode_secret v
                     | None \<Rightarrow> k @ '' not found in .env file'')
             secrets_to_encode)"
    using main_effect [of files content, OF assms] by (simp only: report_eq)
  have a: "\<forall>l \<in> set (appended_lines ?env).
      \<exists>k v. k \<in> set secrets_to_encode \<and> map_of ?env k = Some v \<and> l = b64_line k (encode_secret v)"
    by (simp add: appended_lines_mem)
  have b: "\<forall>k \<in> set secrets_to_encode. map_of ?env k = None \<longrightarrow>
      (\<forall>e. b64_line k e \<notin> set (appended_lines ?env))"
  proof (intro ballI impI allI)
    fix k e assume k: "k \<in> set secrets_to_encode" "map_of ?env k = None"
    show "b64_line k e \<notin> set (appended_lines ?env)"
    proof
      assume "b64_line k e \<in> set (appended_lines ?env)"
      then obtain k' v' where kv: "k' \<in> set secrets_to_encode" "map_of ?env k' = Some v'"
        "b64_line k e = b64_line k' (encode_secret v')"
        by (auto simp: appended_lines_mem)
      from b64_line_key [OF k(1) kv(1) kv(3)] have "k = k'" by simp
      with kv(2) k(2) show False by simp
    qed
  qed
  from m appended_lines_eq [of ?env] a b show ?thesis by (intro conjI)
qed

lemma sample_appended:
  "appended_lines [(''AWS_REGION'', ''us'')] = [''AWS_REGION_B64='' @ [QUOTE] @ ''dXM='' @ [QUOTE, LF]]"
  by code_simp

lemma sample_output:
  "map (\<lambda>k. case map_of [(''AWS_REGION'', ''us'')] k of
               Some v \<Rightarrow> k @ ''_B64='' @ encode_secret v
             | None \<Rightarrow> k @ '' not found in .env file'')
     secrets_to_encode
   = [''AWS_ACCESS_KEY_ID not found in .env file'',
      ''AWS_SECRET_ACCESS_KEY not found in .env file'',
      ''AWS_REGION_B64=dXM='',
      ''CLICKHOUSE_USER not found in .env file'',
      ''CLICKHOUSE_PASSWORD not found in .env file'',
      ''ES_USER not found in .env file'',
      ''ES_PASSWORD not found in .env file'']"
  by code_simp

theorem run_frame_witness:
  "[env_file \<mapsto> ''AWS_REGION=us\<newline>''] env_file = Some ''AWS_REGION=us\<newline>''
   \<and> utf8_valid ''AWS_REGION=us\<newline>''
   \<and> main [env_file \<mapsto> ''AWS_REGION=us\<newline>'']
       = Inr ([env_file \<mapsto> ''AWS_REGION=us\<newline>AWS_REGION_B64='' @ [QUOTE] @ ''dXM='' @ [QUOTE, LF]],
              [''AWS_ACCESS_KEY_ID not found in .env file'',
               ''AWS_SECRET_ACCESS_KEY not found in .env file'',
               ''AWS_REGION_B64=dXM='',
               ''CLICKHOUSE_USER not found in .env file'',
               ''CLICKHOUSE_PASSWORD not found in .env file'',
               ''ES_USER not found in .env file'',
               ''ES_PASSWORD not found in .env file''])"
proof -
  have 1: "[env_file \<mapsto> ''AWS_REGION=us\<newline>''] env_file = Some ''AWS_REGION=us\<newline>''"
    by simp
  have "main [env_file \<mapsto> ''AWS_REGION=us\<newline>'']
      = Inr ([env_file \<mapsto> ''AWS_REGION=us\<newline>'']
               (env_file \<mapsto> ''AWS_REGION=us\<newline>''
                  @ concat (appended_lines (parse_env ''AWS_REGION=us\<newline>''))),
             if parse_env ''AWS_REGION=us\<newline>'' = [] then []
             else map (\<lambda>k. case map_of (parse_env ''AWS_REGION=us\<newline>'') k of
                              Some v \<Rightarrow> k @ ''_B64='' @ encode_secret v
                            | None \<Rightarrow> k @ '' not found in .env file'')
                    secrets_to_encode)"
    using run_frame [of "[env_file \<mapsto> ''AWS_REGION=us\<newline>'']" "''AWS_REGION=us\<newline>''",
        OF 1 sample_valid] by (rule conjunct1)
  then have "main [env_file \<mapsto> ''AWS_REGION=us\<newline>'']
      = Inr ([env_file \<mapsto> ''AWS_REGION=us\<newline>'']
               (env_file \<mapsto> ''AWS_REGION=us\<newline>''
                  @ concat [''AWS_REGION_B64='' @ [QUOTE] @ ''dXM='' @ [QUOTE, LF]]),
             [''AWS_ACCESS_KEY_ID not found in .env file'',
              ''AWS_SECRET_ACCESS_KEY not found in .env file'',
              ''AWS_REGION_B64=dXM='',
              ''CLICKHOUSE_USER not found in .env file'',
              ''CLICKHOUSE_PASSWORD not found in .env file'',
              ''ES_USER not found in .env file'',
              ''ES_PASSWORD not found in .env file''])"
    unfolding sample_parse sample_appended sample_output by simp
  then show ?thesis using 1 sample_valid by simp
qed

text \<open>
  C9 as stated fails on a file that holds only a comment: the target key
  \<open>AWS_REGION\<close> is absent from the dictionary, and the run prints nothing at all.
\<close>

theorem not_found_report_counterexample:
  "''AWS_REGION'' \<in> set secrets_to_encode
   \<and> [env_file \<mapsto> ''#''] env_file = Some ''#''
   \<and> map_of (parse_env ''#'') ''AWS_REGION'' = None
   \<and> main [env_file \<mapsto> ''#''] = Inr ([env_file \<mapsto> ''#''], [])"
  by (simp add: secrets_to_encode_def comment_parse comment_valid main_def load_env_file_def)

text \<open>
  C10: the dictionary read from an existing file is empty exactly when every line is
  blank, a comment or without \<open>=\<close>; then the run prints nothing (no \<open>not found\<close> line
  for any of the seven keys) and leaves every file as it was.
\<close>

theorem empty_mapping_early_exit:
  assumes "files env_file = Some content" "utf8_valid content"
  shows "(parse_env content = [] \<longleftrightarrow> (\<forall>l \<in> set (text_lines content). skipped l))
    \<and> (parse_env content = [] \<longrightarrow> main files = Inr (files, []))"
  using assms by (simp add: parse_env_empty_iff main_def load_env_file_def)

theorem empty_mapping_early_exit_witness:
  "[env_file \<mapsto> ''#''] env_file = Some ''#'' \<and> utf8_valid ''#'' \<and> parse_env ''#'' = []
   \<and> main [env_file \<mapsto> ''#''] = Inr ([env_file \<mapsto> ''#''], [])"
proof -
  have 1: "[env_file \<mapsto> ''#''] env_file = Some ''#''" by simp
  from empty_mapping_early_exit [of "[env_file \<mapsto> ''#'']" "''#''", OF 1 comment_valid] 1 comment_valid comment_parse
  show ?thesis by blast
qed

subsection \<open>The lines of a file after a run\<close>

lemma universal_newlines_Nil: "universal_newlines c = [] \<longleftrightarrow> c = []"
  by (induction c rule: universal_newlines.induct) auto

lemma universal_newlines_last:
  "c \<noteq> [] \<Longrightarrow> last (universal_newlines c) = (if last c = CR then LF else last c)"
  by (induction c rule: universal_newlines.induct) (auto simp: universal_newlines_Nil)

lemma terminated_universal:
  assumes "terminated content" "content \<noteq> []"
  shows "\<exists>u. universal_newlines content = u @ [LF]"
proof -
  have "last (universal_newlines content) = LF"
    using assms by (auto simp: terminated_def universal_newlines_last)
  moreover have "universal_newlines content \<noteq> []"
    using assms(2) by (simp add: universal_newlines_Nil)
  ultimately show ?thesis by (metis append_butlast_last_id)
qed

lemma lines_from_split:
  "lines_from cur (u @ LF # v) = lines_from cur (u @ [LF]) @ lines_from [] v"
  by (induction u arbitrary: cur) auto

lemma lines_from_concat_ok:
  "\<forall>l \<in> set ls. line_ok l \<Longrightarrow> lines_from [] (concat ls) = ls"
proof (induction ls)
  case Nil
  then show ?case by simp
next
  case (Cons l ls)
  then have "line_ok l" by simp
  from line_ok_split [OF this] obtain b where b: "l = b @ [LF]" "LF \<notin> set b" by blast
  have "lines_from [] (concat (l # ls)) = ([] @ b @ [LF]) # lines_from [] (concat ls)"
    using lines_from_line [OF b(2), of "[]" "concat ls"] b(1) by simp
  then show ?case using Cons b(1) by simp
qed

lemma text_lines_append_ok:
  assumes "terminated content" "\<forall>l \<in> set ls. line_ok l"
  shows "text_lines (content @ concat ls) = text_lines content @ ls"
proof (cases "content = []")
  case True
  have "CR \<notin> set (concat ls)" using lines_ok_concat [OF assms(2)] by blast
  then show ?thesis using True lines_from_concat_ok [OF assms(2)]
    by (simp add: text_lines_def universal_newlines_id)
next
  case False
  from terminated_universal [OF assms(1) False] obtain u
    where u: "universal_newlines content = u @ [LF]" by blast
  from lines_ok_concat [OF assms(2)]
  have "universal_newlines (content @ concat ls) = universal_newlines content @ concat ls"
    by (intro universal_newlines_append) auto
  then have "text_lines (content @ concat ls) = lines_from [] (u @ LF # concat ls)"
    by (simp add: text_lines_def u)
  also have "\<dots> = lines_from [] (u @ [LF]) @ lines_from [] (concat ls)"
    by (rule lines_from_split)
  finally show ?thesis
    using lines_from_concat_ok [OF assms(2)] by (simp add: text_lines_def u)
qed

lemma parse_line_other:
  "line_key l \<noteq> Some k \<Longrightarrow> map_of (parse_line env l) k = map_of env k"
  by (auto simp: parse_line_def line_key_def skipped_def Let_def split_first_def
      AList.update_conv')

lemma parse_lines_other:
  "\<forall>l \<in> set ls. line_key l \<noteq> Some k \<Longrightarrow> map_of (foldl parse_line env ls) k = map_of env k"
  by (induction ls arbitrary: env) (simp_all add: parse_line_other)

lemma line_ok_no_target:
  assumes "line_ok l" "k \<in> set secrets_to_encode"
  shows "line_key l \<noteq> Some k"
  using line_ok_key [OF assms, of "[]"] by (simp add: line_key_Nil)

lemma file_after_values:
  assumes "terminated content" "k \<in> set secrets_to_encode"
  shows "map_of (parse_env (file_after content)) k = map_of (parse_env content) k"
proof -
  let ?ls = "appended_lines (parse_env content)"
  have "parse_env (file_after content) = foldl parse_line (parse_env content) ?ls"
    unfolding file_after_def parse_env_def
    using text_lines_append_ok [OF assms(1) appended_lines_ok, of "parse_env content"]
    by (simp add: parse_env_def)
  moreover have "\<forall>l \<in> set ?ls. line_key l \<noteq> Some k"
    using appended_lines_ok line_ok_no_target assms(2) by blast
  ultimately show ?thesis by (simp add: parse_lines_other)
qed

lemma file_after_same_lines:
  assumes "terminated content"
  shows "appended_lines (parse_env (file_after content)) = appended_lines (parse_env content)"
proof -
  have "List.map_filter (\<lambda>k. map_option (Pair k) (map_of (parse_env (file_after content)) k))
        secrets_to_encode
      = List.map_filter (\<lambda>k. map_option (Pair k) (map_of (parse_env content) k)) secrets_to_encode"
    unfolding map_filter_def using file_after_values [OF assms]
    by (metis (mono_tags, lifting) filter_cong map_eq_conv mem_Collect_eq set_filter comp_apply)
  then show ?thesis by (simp add: appended_lines_def present_secrets_def)
qed

lemma file_after_terminated: "terminated content \<Longrightarrow> terminated (file_after content)"
proof (cases "appended_lines (parse_env content)" rule: rev_cases)
  case Nil
  assume "terminated content"
  then show ?thesis using Nil by (simp add: file_after_def)
next
  case (snoc ls l)
  then have "line_ok l" using appended_lines_ok [of "parse_env content"] by simp
  from line_ok_split [OF this] obtain b where "l = b @ [LF]" by blast
  then show ?thesis using snoc by (simp add: file_after_def terminated_def)
qed

lemma file_after_twice_lines:
  assumes "terminated content"
  shows "text_lines (file_after (file_after content))
      = text_lines content @ appended_lines (parse_env content) @ appended_lines (parse_env content)"
proof -
  have 1: "text_lines (file_after content) = text_lines content @ appended_lines (parse_env content)"
    unfolding file_after_def by (rule text_lines_append_ok [OF assms appended_lines_ok])
  have "text_lines (file_after (file_after content))
      = text_lines (file_after content) @ appended_lines (parse_env (file_after content))"
    unfolding file_after_def [of "file_after content"]
    by (rule text_lines_append_ok [OF file_after_terminated [OF assms] appended_lines_ok])
  then show ?thesis unfolding 1 file_after_same_lines [OF assms] by simp
qed

lemma split_first_eq:
  "CHR ''='' \<notin> set k \<Longrightarrow> split_first CHR ''='' (k @ CHR ''='' # v) = (k, v)"
  by (simp add: split_first_def takeWhile_upto dropWhile_append3 takeWhile_tail dropWhile_append)

lemma secret_plain:
  "\<forall>k \<in> set secrets_to_encode. k \<noteq> [] \<and> hd k \<noteq> CHR ''#'' \<and> CHR ''='' \<notin> set k"
  by (simp add: secrets_to_encode_def)

lemma parse_line_hit:
  assumes "k \<in> set secrets_to_encode" "strip l = k @ ''='' @ v"
  shows "map_of (parse_line env l) k = Some v" "line_key l = Some k"
proof -
  from secret_plain assms(1) have k: "k \<noteq> []" "hd k \<noteq> CHR ''#''" "CHR ''='' \<notin> set k"
    by blast+
  have s: "strip l = k @ CHR ''='' # v" using assms(2) by simp
  have ns: "\<not> skipped l"
    unfolding skipped_def s using k by (simp add: prefix_hash)
  show "line_key l = Some k"
    using ns takeWhile_upto [OF k(3), of v] by (simp add: line_key_def s)
  show "map_of (parse_line env l) k = Some v"
    using ns split_first_eq [OF k(3), of v]
    by (simp add: parse_line_def Let_def skipped_def s AList.update_conv')
qed

lemma parse_env_line:
  assumes "k \<in> set secrets_to_encode" "text_lines content = before @ l # after"
    and "strip l = k @ ''='' @ v" "\<forall>l' \<in> set after. line_key l' \<noteq> Some k"
  shows "map_of (parse_env content) k = Some v"
proof -
  have "parse_env content = foldl parse_line (parse_line (foldl parse_line [] before) l) after"
    unfolding parse_env_def assms(2) by simp
  then show ?thesis
    using parse_lines_other [OF assms(4)] parse_line_hit(1) [OF assms(1,3)] by simp
qed

text \<open>
  C3: decoding with the standard base64 decoder what \<^const>\<open>encode_secret\<close> returns gives
  the string back, for every string. When the file has a line that, stripped of surrounding
  white space, reads \<open>KEY=VALUE\<close> for a target key, and no later line assigns that key,
  the run appends a line \<open>KEY_B64='e'\<close> for the key, it is the only appended line for the
  key, and \<open>e\<close> decodes to \<open>VALUE\<close>. (With several lines for one key the dictionary
  holds the value of the last, so the hypothesis names the last one.)
\<close>

theorem appended_value_decodes:
  assumes "files env_file = Some content" "utf8_valid content"
    and "k \<in> set secrets_to_encode" "text_lines content = before @ l # after"
    and "strip l = k @ ''='' @ v" "\<forall>l' \<in> set after. line_key l' \<noteq> Some k"
  shows "b64decode (encode_secret s) = Some s \<and>
    (\<exists>files' out e.
       main files = Inr (files', out)
       \<and> files' env_file = Some (content @ concat (appended_lines (parse_env content)))
       \<and> b64_line k e \<in> set (appended_lines (parse_env content))
       \<and> (\<forall>e'. b64_line k e' \<in> set (appended_lines (parse_env content)) \<longrightarrow> e' = e)
       \<and> b64decode e = Some v)"
proof -
  let ?env = "parse_env content"
  have mv: "map_of ?env k = Some v" using assms(3-6) by (rule parse_env_line)
  have rt: "\<And>x. b64decode (encode_secret x) = Some x"
    by (simp add: encode_secret_def b64_roundtrip)
  have m: "main files = Inr (files(env_file \<mapsto> content @ concat (appended_lines ?env)),
      if ?env = [] then [] else map (report ?env) secrets_to_encode)"
    using main_effect [of files content, OF assms(1,2)] .
  have "b64_line k (encode_secret v) \<in> set (appended_lines ?env)"
    using assms(3) mv by (auto simp: appended_lines_mem)
  moreover have "\<forall>e'. b64_line k e' \<in> set (appended_lines ?env) \<longrightarrow> e' = encode_secret v"
  proof (intro allI impI)
    fix e' assume "b64_line k e' \<in> set (appended_lines ?env)"
    then obtain k' v' where kv: "k' \<in> set secrets_to_encode" "map_of ?env k' = Some v'"
      "b64_line k e' = b64_line k' (encode_secret v')"
      by (auto simp: appended_lines_mem)
    from b64_line_key [OF assms(3) kv(1) kv(3)] have "k = k'" "e' = encode_secret v'" by simp_all
    with kv(2) mv show "e' = encode_secret v" by simp
  qed
  ultimately show ?thesis using m rt by auto
qed

lemma sample_lines: "text_lines ''AWS_REGION=us\<newline>'' = [] @ ''AWS_REGION=us\<newline>'' # []"
  by code_simp

lemma sample_strip: "strip ''AWS_REGION=us\<newline>'' = ''AWS_REGION'' @ ''='' @ ''us''"
  by code_simp

theorem appended_value_decodes_witness:
  "[env_file \<mapsto> ''AWS_REGION=us\<newline>''] env_file = Some ''AWS_REGION=us\<newline>''
   \<and> utf8_valid ''AWS_REGION=us\<newline>''
   \<and> ''AWS_REGION'' \<in> set secrets_to_encode
   \<and> text_lines ''AWS_REGION=us\<newline>'' = [] @ ''AWS_REGION=us\<newline>'' # []
   \<and> strip ''AWS_REGION=us\<newline>'' = ''AWS_REGION'' @ ''='' @ ''us''
   \<and> b64decode (encode_secret ''us'') = Some ''us''
   \<and> (\<exists>files' out e.
       main [env_file \<mapsto> ''AWS_REGION=us\<newline>''] = Inr (files', out)
       \<and> files' env_file = Some (''AWS_REGION=us\<newline>''
            @ concat (appended_lines (parse_env ''AWS_REGION=us\<newline>'')))
       \<and> b64_line ''AWS_REGION'' e \<in> set (appended_lines (parse_env ''AWS_REGION=us\<newline>''))
       \<and> b64decode e = Some ''us'')"
proof -
  have 1: "[env_file \<mapsto> ''AWS_REGION=us\<newline>''] env_file = Some ''AWS_REGION=us\<newline>''"
    by simp
  have 3: "''AWS_REGION'' \<in> set secrets_to_encode" by (simp add: secrets_to_encode_def)
  have 6: "\<forall>l' \<in> set []. line_key l' \<noteq> Some ''AWS_REGION''" by simp
  from appended_value_decodes [of "[env_file \<mapsto> ''AWS_REGION=us\<newline>'']"
      "''AWS_REGION=us\<newline>''" "''AWS_REGION''" "[]" "''AWS_REGION=us\<newline>''" "[]" "''us''" "''us''",
      OF 1 sample_valid 3 sample_lines sample_strip 6]
    1 sample_valid 3 sample_lines sample_strip
  show ?thesis by blast
qed

text \<open>
  C7: two runs in succession. The first turns the text \<open>content\<close> into
  \<^term>\<open>file_after content\<close>, the second that into
  \<^term>\<open>file_after (file_after content)\<close>. Both runs find the same target keys; among
  the lines appended by the two runs exactly two start with \<open>KEY_B64=\<close> for each target
  key of the original file and none for any other target key; and each run adds one
  newline-terminated line for each of those keys. When the original text is empty or ends
  in a line terminator, the lines read from the file after the two runs are its own lines
  followed by the same appended lines twice.
\<close>

theorem encoder_twice:
  assumes "files env_file = Some content" "utf8_valid content"
  shows "\<exists>out1 out2.
      main files = Inr (files(env_file \<mapsto> file_after content), out1)
      \<and> main (files(env_file \<mapsto> file_after content))
          = Inr (files(env_file \<mapsto> file_after (file_after content)), out2)
      \<and> file_after (file_after content)
          = content @ concat (appended_lines (parse_env content))
              @ concat (appended_lines (parse_env (file_after content)))
      \<and> map fst (present_secrets (parse_env (file_after content)))
          = map fst (present_secrets (parse_env content))
      \<and> (\<forall>k \<in> set secrets_to_encode.
            length (filter (prefix (k @ ''_B64=''))
              (appended_lines (parse_env content) @ appended_lines (parse_env (file_after content))))
            = (if map_of (parse_env content) k = None then 0 else 2))
      \<and> line_count (file_after content)
          = line_count content + length (present_secrets (parse_env content))
      \<and> line_count (file_after (file_after content))
          = line_count (file_after content) + length (present_secrets (parse_env content))
      \<and> (terminated content \<longrightarrow>
            text_lines (file_after (file_after content))
              = text_lines content @ appended_lines (parse_env content)
                  @ appended_lines (parse_env content))"
proof -
  let ?c1 = "file_after content"
  let ?f1 = "files(env_file \<mapsto> ?c1)"
  have m1: "main files = Inr (?f1,
      if parse_env content = [] then [] else map (report (parse_env content)) secrets_to_encode)"
    using main_effect [of files content, OF assms] unfolding file_after_def .
  have v1: "utf8_valid ?c1" using assms(2) by (rule file_after_valid)
  have e1: "?f1 env_file = Some ?c1" by simp
  have "main ?f1 = Inr (?f1(env_file \<mapsto> file_after ?c1),
      if parse_env ?c1 = [] then [] else map (report (parse_env ?c1)) secrets_to_encode)"
    using main_effect [of ?f1 ?c1, OF e1 v1] unfolding file_after_def .
  then have m2: "main ?f1 = Inr (files(env_file \<mapsto> file_after ?c1),
      if parse_env ?c1 = [] then [] else map (report (parse_env ?c1)) secrets_to_encode)"
    by simp
  have fa: "file_after ?c1 = content @ concat (appended_lines (parse_env content))
      @ concat (appended_lines (parse_env ?c1))"
    by (simp add: file_after_def)
  have pk: "map fst (present_secrets (parse_env ?c1)) = map fst (present_secrets (parse_env content))"
    by (rule present_after)
  have keys: "\<And>k. k \<in> set secrets_to_encode \<Longrightarrow>
      (k \<in> fst ` set (parse_env ?c1)) = (k \<in> fst ` set (parse_env content))"
    unfolding file_after_def by (rule parse_env_append_ok [OF appended_lines_ok])
  have cnt: "\<forall>k \<in> set secrets_to_encode.
      length (filter (prefix (k @ ''_B64=''))
        (appended_lines (parse_env content) @ appended_lines (parse_env ?c1)))
      = (if map_of (parse_env content) k = None then 0 else 2)"
  proof
    fix k assume k: "k \<in> set secrets_to_encode"
    show "length (filter (prefix (k @ ''_B64=''))
        (appended_lines (parse_env content) @ appended_lines (parse_env ?c1)))
      = (if map_of (parse_env content) k = None then 0 else 2)"
      using count_b64_lines [OF k, of "parse_env content"] count_b64_lines [OF k, of "parse_env ?c1"]
        keys [OF k] by (simp add: map_of_None_iff)
  qed
  have l1: "line_count ?c1 = line_count content + length (present_secrets (parse_env content))"
    by (rule line_count_after)
  have "length (present_secrets (parse_env ?c1)) = length (present_secrets (parse_env content))"
    using pk by (metis length_map)
  then have l2: "line_count (file_after ?c1)
      = line_count ?c1 + length (present_secrets (parse_env content))"
    using line_count_after [of ?c1] by simp
  have tl: "terminated content \<longrightarrow>
      text_lines (file_after ?c1)
        = text_lines content @ appended_lines (parse_env content) @ appended_lines (parse_env content)"
    using file_after_twice_lines by blast
  from m1 m2 fa pk cnt l1 l2 tl show ?thesis by blast
qed

lemma sample_after:
  "file_after (file_after ''AWS_REGION=us\<newline>'')
     = ''AWS_REGION=us\<newline>AWS_REGION_B64='' @ [QUOTE] @ ''dXM='' @ [QUOTE]
       @ ''\<newline>AWS_REGION_B64='' @ [QUOTE] @ ''dXM='' @ [QUOTE] @ ''\<newline>''"
  by code_simp

theorem encoder_twice_witness:
  "[env_file \<mapsto> ''AWS_REGION=us\<newline>''] env_file = Some ''AWS_REGION=us\<newline>''
   \<and> utf8_valid ''AWS_REGION=us\<newline>''
   \<and> terminated ''AWS_REGION=us\<newline>''
   \<and> text_lines (file_after (file_after ''AWS_REGION=us\<newline>''))
       = text_lines ''AWS_REGION=us\<newline>'' @ appended_lines (parse_env ''AWS_REGION=us\<newline>'')
           @ appended_lines (parse_env ''AWS_REGION=us\<newline>'')
   \<and> (\<exists>out1 out2.
        main [env_file \<mapsto> ''AWS_REGION=us\<newline>'']
          = Inr ([env_file \<mapsto> file_after ''AWS_REGION=us\<newline>''], out1)
        \<and> main [env_file \<mapsto> file_after ''AWS_REGION=us\<newline>'']
          = Inr ([env_file \<mapsto> file_after (file_after ''AWS_REGION=us\<newline>'')], out2))
   \<and> file_after (file_after ''AWS_REGION=us\<newline>'')
     = ''AWS_REGION=us\<newline>AWS_REGION_B64='' @ [QUOTE] @ ''dXM='' @ [QUOTE]
       @ ''\<newline>AWS_REGION_B64='' @ [QUOTE] @ ''dXM='' @ [QUOTE] @ ''\<newline>''"
proof -
  have 1: "[env_file \<mapsto> ''AWS_REGION=us\<newline>''] env_file = Some ''AWS_REGION=us\<newline>''"
    by simp
  have 2: "terminated ''AWS_REGION=us\<newline>''" by (simp add: terminated_def LF_def)
  note t = encoder_twice [of "[env_file \<mapsto> ''AWS_REGION=us\<newline>'']" "''AWS_REGION=us\<newline>''",
      OF 1 sample_valid]
  from t 2 have 3: "text_lines (file_after (file_after ''AWS_REGION=us\<newline>''))
       = text_lines ''AWS_REGION=us\<newline>'' @ appended_lines (parse_env ''AWS_REGION=us\<newline>'')
           @ appended_lines (parse_env ''AWS_REGION=us\<newline>'')"
    by blast
  from t obtain out1 out2 where
    "main [env_file \<mapsto> ''AWS_REGION=us\<newline>'']
       = Inr ([env_file \<mapsto> ''AWS_REGION=us\<newline>''](env_file \<mapsto> file_after ''AWS_REGION=us\<newline>''), out1)"
    "main ([env_file \<mapsto> ''AWS_REGION=us\<newline>''](env_file \<mapsto> file_after ''AWS_REGION=us\<newline>''))
       = Inr ([env_file \<mapsto> ''AWS_REGION=us\<newline>'']
           (env_file \<mapsto> file_after (file_after ''AWS_REGION=us\<newline>'')), out2)"
    by blast
  then have "\<exists>out1 out2.
        main [env_file \<mapsto> ''AWS_REGION=us\<newline>'']
          = Inr ([env_file \<mapsto> file_after ''AWS_REGION=us\<newline>''], out1)
        \<and> main [env_file \<mapsto> file_after ''AWS_REGION=us\<newline>'']
          = Inr ([env_file \<mapsto> file_after (file_after ''AWS_REGION=us\<newline>'')], out2)"
    by simp
  with 1 2 3 sample_valid sample_after show ?thesis by blast
qed

section \<open>Properties of the uploader\<close>

subsection \<open>Row counts\<close>

lemma device_readings_length: "length (fst (device_readings ts dev g)) = 3"
  by (simp add: device_readings_def Let_def split_beta)

lemma devices_loop_length: "length (fst (devices_loop ts devs g)) = 3 * length devs"
  by (induction devs arbitrary: g) (simp_all add: split_beta Let_def device_readings_length)

lemma timestamps_loop_length:
  "length (fst (timestamps_loop tss n g)) = length tss * (3 * nat n)"
  by (induction tss arbitrary: g) (simp_all add: split_beta Let_def devices_loop_length)

lemma date_range_length:
  "length (date_range s e) = (if s \<le> e then nat ((e - s) div minute) + 1 else 0)"
proof (induction s e rule: date_range.induct)
  case (1 s e)
  show ?case
  proof (cases "s \<le> e")
    case False
    then show ?thesis by (subst date_range.simps) simp
  next
    case True
    note le = this
    show ?thesis
    proof (cases "s + minute \<le> e")
      case True
      have "(e - s) div minute = (e - (s + minute)) div minute + 1"
        by (simp add: minute_def algebra_simps) 
      moreover have "0 \<le> (e - (s + minute)) div minute"
        using True by (simp add: minute_def pos_imp_zdiv_nonneg_iff)
      ultimately show ?thesis using 1 [OF le] le True
        by (subst date_range.simps) (simp add: nat_add_distrib)
    next
      case False
      then have "(e - s) div minute = 0" using le by (simp add: minute_def div_pos_pos_trivial)
      then show ?thesis using 1 [OF le] le False
        by (subst date_range.simps) simp
    qed
  qed
qed

lemma generate_length:
  "length (fst (generate_sample_data s e n g)) = length (date_range s e) * (3 * nat n)"
  by (simp add: generate_sample_data_def timestamps_loop_length)

lemma mult_le_iff_le_div:
  fixes k m x :: int
  assumes "0 < m"
  shows "k * m \<le> x \<longleftrightarrow> k \<le> x div m"
proof
  assume "k * m \<le> x"
  then have "(k * m) div m \<le> x div m" using assms by (rule zdiv_mono1)
  then show "k \<le> x div m" using assms by simp
next
  assume "k \<le> x div m"
  then have "k * m \<le> (x div m) * m" using assms by (simp add: mult_right_mono)
  also have "(x div m) * m = x - x mod m" by (simp add: minus_mod_eq_div_mult)
  also have "\<dots> \<le> x" using assms by simp
  finally show "k * m \<le> x" .
qed

lemma minute_pos: "0 < minute"
  by (simp add: minute_def)

lemma points_card:
  assumes "s \<le> e"
  shows "card {k::nat. s + int k * minute \<le> e} = nat ((e - s) div minute) + 1"
proof -
  have nn: "0 \<le> (e - s) div minute"
    using assms minute_pos by (simp add: pos_imp_zdiv_nonneg_iff)
  have "\<And>k::nat. (s + int k * minute \<le> e) = (int k * minute \<le> e - s)"
    by linarith
  then have "{k::nat. s + int k * minute \<le> e} = {k. int k * minute \<le> e - s}"
    by simp
  also have "\<dots> = {k. int k \<le> (e - s) div minute}"
    by (simp add: mult_le_iff_le_div [OF minute_pos])
  also have "\<dots> = {..nat ((e - s) div minute)}"
    using nn by (auto simp: le_nat_iff)
  finally show ?thesis by simp
qed

text \<open>
  C4: for \<open>start \<le> end\<close> and a positive number of devices, the frame has as many rows as
  there are instants \<open>start + k\<close> minutes up to \<open>end\<close>, times the number of devices, times
  three; from 2024-01-01T00:00 to 2024-01-01T00:02 with one device that is 9 rows.
\<close>

theorem generate_row_count:
  assumes "start_date \<le> end_date" "0 < num_devices"
  shows "length (fst (generate_sample_data start_date end_date num_devices g))
      = card {k::nat. start_date + int k * minute \<le> end_date} * nat num_devices * 3
    \<and> length (fst (generate_sample_data (1704067200 * 1000000)
          (1704067200 * 1000000 + 2 * minute) 1 g)) = 9"
proof -
  have "(1704067200 * 1000000 + 2 * minute - 1704067200 * 1000000) div minute = 2"
    by (simp add: minute_def)
  moreover have "(1704067200 * 1000000 :: int) \<le> 1704067200 * 1000000 + 2 * minute"
    by (simp add: minute_def)
  ultimately have "length (date_range (1704067200 * 1000000) (1704067200 * 1000000 + 2 * minute)) = 3"
    by (simp add: date_range_length)
  then have ex: "length (fst (generate_sample_data (1704067200 * 1000000)
      (1704067200 * 1000000 + 2 * minute) 1 g)) = 9"
    by (simp add: generate_length)
  have "length (date_range start_date end_date)
      = card {k::nat. start_date + int k * minute \<le> end_date}"
    using assms(1) by (simp only: date_range_length points_card if_True)
  then have "length (fst (generate_sample_data start_date end_date num_devices g))
      = card {k::nat. start_date + int k * minute \<le> end_date} * nat num_devices * 3"
    by (simp only: generate_length mult.assoc mult.commute [of 3])
  with ex show ?thesis by (rule conjI [rotated])
qed

theorem generate_row_count_witness:
  "(0::int) \<le> 2 * minute \<and> (0::int) < 1
   \<and> length (fst (generate_sample_data 0 (2 * minute) 1 (\<lambda>n. 1 / 2))) = 9"
proof -
  have 1: "(0::int) \<le> 2 * minute" by (simp add: minute_def)
  have 2: "(0::int) < 1" by simp
  have "card {k::nat. 0 + int k * minute \<le> 2 * minute} = 3"
    using points_card [OF 1] by (simp add: minute_def)
  with generate_row_count [OF 1 2, of "\<lambda>n. 1 / 2"] 1 show ?thesis by simp
qed

subsection \<open>Values\<close>

lemma device_readings_clamped:
  assumes "r \<in> set (fst (device_readings ts dev g))"
  shows "(metric_name r = ''humidity'' \<longrightarrow> 0 \<le> metric_value r \<and> metric_value r \<le> 100)
    \<and> (metric_name r = ''temperature'' \<longrightarrow> 0 \<le> metric_value r)"
  using assms by (auto simp: device_readings_def Let_def split_beta split: if_splits)

lemma devices_loop_set:
  "set (fst (devices_loop ts devs g)) \<subseteq> (\<Union>dev \<in> set devs. \<Union>g'. set (fst (device_readings ts dev g')))"
proof (induction devs arbitrary: g)
  case Nil
  then show ?case by simp
next
  case (Cons dev devs)
  show ?case using Cons.IH [of "snd (device_readings ts dev g)"]
    by (auto simp: split_beta Let_def)
qed

lemma timestamps_loop_set:
  "set (fst (timestamps_loop tss n g))
     \<subseteq> (\<Union>ts \<in> set tss. \<Union>dev \<in> set [1..n]. \<Union>g'. set (fst (device_readings ts dev g')))"
proof (induction tss arbitrary: g)
  case Nil
  then show ?case by simp
next
  case (Cons ts tss)
  show ?case
    using Cons.IH [of "snd (devices_loop ts [1..n] g)"] devices_loop_set [of ts "[1..n]" g]
    by (auto simp: split_beta Let_def)
qed

lemma generate_rows:
  assumes "r \<in> set (fst (generate_sample_data s e n g))"
  shows "\<exists>ts dev g'. r \<in> set (fst (device_readings ts dev g'))"
  using assms timestamps_loop_set [of "date_range s e" n g]
  unfolding generate_sample_data_def by blast

text \<open>
  C5: in every row of the frame, whatever the range, the number of devices and the random
  draws, a humidity lies in \<open>[0, 100]\<close> and a temperature is at least 0; the value of the
  pressure row is the rounded draw itself, with no bound applied.
\<close>

theorem generated_values_clamped:
  "(\<forall>r \<in> set (fst (generate_sample_data start_date end_date num_devices g)).
      (metric_name r = ''humidity'' \<longrightarrow> 0 \<le> metric_value r \<and> metric_value r \<le> 100)
      \<and> (metric_name r = ''temperature'' \<longrightarrow> 0 \<le> metric_value r))
   \<and> metric_name (fst (device_readings ts dev g) ! 2) = ''pressure''
   \<and> metric_value (fst (device_readings ts dev g) ! 2) = round2 (1010 + (1020 - 1010) * g 2)"
proof -
  have "metric_name (fst (device_readings ts dev g) ! 2) = ''pressure''
      \<and> metric_value (fst (device_readings ts dev g) ! 2) = round2 (1010 + (1020 - 1010) * g 2)"
    by (simp add: device_readings_def Let_def split_beta random_uniform_def numeral_2_eq_2)
  then show ?thesis using generate_rows device_readings_clamped by blast
qed

lemma date_range_single: "date_range s s = [s]"
proof -
  have "date_range (s + minute) s = []"
    by (subst date_range.simps) (simp add: minute_def)
  then show ?thesis by (subst date_range.simps) simp
qed

lemma noon_rows:
  "map (\<lambda>r. (metric_name r, metric_value r))
     (fst (generate_sample_data (12 * hour) (12 * hour) 1 (\<lambda>n. if n = 3 then 1 / 64 else 1 / 2)))
     = [(''temperature'', 27046875 / 1000000), (''humidity'', 40), (''pressure'', 1015)]"
  by (simp add: generate_sample_data_def date_range_single hour_def minute_def
      device_readings_def Let_def split_beta random_uniform_def hour_of_def round2_def)

theorem generated_values_clamped_witness:
  "\<exists>r \<in> set (fst (generate_sample_data (12 * hour) (12 * hour) 1
        (\<lambda>n. if n = 3 then 1 / 64 else 1 / 2))).
     metric_name r = ''humidity'' \<and> 0 \<le> metric_value r \<and> metric_value r \<le> 100"
proof -
  let ?rows = "fst (generate_sample_data (12 * hour) (12 * hour) 1
      (\<lambda>n. if n = 3 then 1 / 64 else 1 / 2))"
  have "(''humidity'', 40) \<in> set (map (\<lambda>r. (metric_name r, metric_value r)) ?rows)"
    unfolding noon_rows by simp
  then obtain r where r: "r \<in> set ?rows" "metric_name r = ''humidity''" by auto
  from generated_values_clamped [of "12 * hour" "12 * hour" 1
      "\<lambda>n. if n = 3 then 1 / 64 else 1 / 2" 0 0] r
  have "0 \<le> metric_value r \<and> metric_value r \<le> 100" by blast
  with r show ?thesis by blast
qed

lemma round2_int: "round2 (of_int k / 100) = of_int k / 100"
  by (simp add: round2_def)

lemma if3_choice:
  "(if a then p else if b then q else if c then p else q) = p
   \<or> (if a then p else if b then q else if c then p else q) = q"
  by simp

lemma round2_is_int: "\<exists>k. round2 x = of_int k / 100"
proof -
  let ?f = "\<lfloor>x * 100\<rfloor>"
  let ?d = "x * 100 - of_int ?f"
  from if3_choice [of "?d < 1 / 2" "of_int ?f :: real" "1 / 2 < ?d" "of_int (?f + 1)" "even ?f"]
  have "round2 x = of_int ?f / 100 \<or> round2 x = of_int (?f + 1) / 100"
    unfolding round2_def Let_def by presburger
  then show ?thesis by blast
qed

lemma round2_idem: "round2 (round2 x) = round2 x"
proof -
  obtain k where "round2 x = of_int k / 100" using round2_is_int by blast
  then show ?thesis by (simp only: round2_int)
qed

lemma round2_clamp:
  "round2 (max 0 (round2 x)) = max 0 (round2 x)"
  "round2 (max 0 (min 100 (round2 x))) = max 0 (min 100 (round2 x))"
proof -
  have z: "round2 0 = 0" using round2_int [of 0] by simp
  have h: "round2 100 = 100" using round2_int [of 10000] by simp
  show "round2 (max 0 (round2 x)) = max 0 (round2 x)"
    using z round2_idem [of x] by (simp add: max_def)
  show "round2 (max 0 (min 100 (round2 x))) = max 0 (min 100 (round2 x))"
    using z h round2_idem [of x] by (simp add: max_def min_def)
qed

lemma night_rows_rounded:
  assumes "\<not> (6 \<le> hour_of ts \<and> hour_of ts \<le> 18)" "r \<in> set (fst (device_readings ts dev g))"
  shows "round2 (metric_value r) = metric_value r"
  using assms by (auto simp: device_readings_def Let_def split_beta round2_clamp round2_idem)

lemma pressure_rows_rounded:
  assumes "r \<in> set (fst (device_readings ts dev g))" "metric_name r = ''pressure''"
  shows "round2 (metric_value r) = metric_value r"
  using assms by (auto simp: device_readings_def Let_def split_beta round2_idem)

text \<open>
  C2, evaluated at noon: with the draws 0.5, 0.5, 0.5, 0.015625, 0.5 (each exact in
  binary floating point) the temperature row holds 27.046875, which rounding to two
  decimals would change to 27.05. The adjustment of the daytime branch is added after the
  rounding.
\<close>

theorem daytime_value_not_rounded:
  "hour_of (12 * hour) = 12
   \<and> map (\<lambda>r. (metric_name r, metric_value r))
       (fst (generate_sample_data (12 * hour) (12 * hour) 1 (\<lambda>n. if n = 3 then 1 / 64 else 1 / 2)))
     = [(''temperature'', 27046875 / 1000000), (''humidity'', 40), (''pressure'', 1015)]
   \<and> round2 (27046875 / 1000000) = 2705 / 100
   \<and> round2 (27046875 / 1000000) \<noteq> 27046875 / 1000000"
proof -
  have "hour_of (12 * hour) = 12" by (simp add: hour_of_def hour_def minute_def)
  moreover have "round2 (27046875 / 1000000) = 2705 / 100" by (simp add: round2_def)
  ultimately show ?thesis using noon_rows by simp
qed

subsection \<open>The upload loop\<close>

lemma upload_result:
  "fst (upload_to_s3 s3 df b k a s r w) =
     (create_client s3 a s r = None
      \<and> put_object s3 (length (put_calls w))
           \<lparr>Bucket = b, Key = k, Body = df, ContentType = ''text/csv''\<rparr> = None)"
  by (simp add: upload_to_s3_def Let_def split: option.splits)

lemma upload_calls:
  "put_calls (snd (upload_to_s3 s3 df b k a s r w)) =
     put_calls w @ (if create_client s3 a s r = None
                    then [\<lparr>Bucket = b, Key = k, Body = df, ContentType = ''text/csv''\<rparr>] else [])"
  by (simp add: upload_to_s3_def Let_def split: option.splits)

lemma upload_loop_step:
  "upload_loop s3 df e b a s r (key # keys) (g, w, rs) =
     upload_loop s3 df e b a s r keys
       (rng_after e g key,
        snd (upload_to_s3 s3 (body_for df e g key) b key a s r w),
        rs @ [(key, fst (upload_to_s3 s3 (body_for df e g key) b key a s r w))])"
  by (simp add: body_for_def rng_after_def split_beta Let_def)

lemma loop_keys:
  "map fst (snd (snd (upload_loop s3 df e b a s r keys (g, w, rs)))) = map fst rs @ keys"
proof (induction keys arbitrary: g w rs)
  case Nil
  then show ?case by simp
next
  case (Cons key keys)
  show ?case unfolding upload_loop_step Cons.IH by simp
qed

lemma loop_calls:
  "put_calls (fst (snd (upload_loop s3 df e b a s r keys (g, w, rs)))) =
     put_calls w @ (if create_client s3 a s r = None then loop_requests df e b g keys else [])"
proof (induction keys arbitrary: g w rs)
  case Nil
  then show ?case by simp
next
  case (Cons key keys)
  show ?case unfolding upload_loop_step Cons.IH upload_calls by simp
qed

lemma upt_head: "[n..<Suc (n + m)] = n # [Suc n..<Suc (n + m)]"
  by (rule upt_conv_Cons) simp

lemma loop_flags_ok:
  assumes ok: "create_client s3 a s r = None"
  shows "map snd (snd (snd (upload_loop s3 df e b a s r keys (g, w, rs)))) =
     map snd rs @
     map (\<lambda>(i, request). put_object s3 i request = None)
       (zip [length (put_calls w)..<length (put_calls w) + length keys]
            (loop_requests df e b g keys))"
proof (induction keys arbitrary: g w rs)
  case Nil
  then show ?case by simp
next
  case (Cons key keys)
  let ?req = "\<lparr>Bucket = b, Key = key, Body = body_for df e g key, ContentType = ''text/csv''\<rparr>"
  have calls: "put_calls (snd (upload_to_s3 s3 (body_for df e g key) b key a s r w))
      = put_calls w @ [?req]"
    using ok by (simp add: upload_calls)
  have res: "fst (upload_to_s3 s3 (body_for df e g key) b key a s r w)
      = (put_object s3 (length (put_calls w)) ?req = None)"
    using ok by (simp add: upload_result)
  show ?case unfolding upload_loop_step Cons.IH calls res
    by (simp add: upt_head del: upt_Suc)
qed

lemma loop_flags_fail:
  assumes "create_client s3 a s r \<noteq> None"
  shows "map snd (snd (snd (upload_loop s3 df e b a s r keys (g, w, rs)))) =
     map snd rs @ replicate (length keys) False"
proof (induction keys arbitrary: g w rs)
  case Nil
  then show ?case by simp
next
  case (Cons key keys)
  have res: "fst (upload_to_s3 s3 (body_for df e g key) b key a s r w) = False"
    using assms by (simp add: upload_result)
  show ?case unfolding upload_loop_step Cons.IH res
    by (simp add: replicate_append_same)
qed

lemma loop_requests_keys: "map Key (loop_requests df e b g keys) = keys"
  by (induction keys arbitrary: g) simp_all

lemma loop_requests_length: "length (loop_requests df e b g keys) = length keys"
  by (induction keys arbitrary: g) simp_all

lemma main_uploader_loop:
  "main_uploader environ now s3 g w =
     upload_loop s3 (fst (generate_sample_data (now - 7 * day) now 5 g)) now
       (environ ''S3_BUCKET_NAME'') (environ ''AWS_ACCESS_KEY_ID'') (environ ''AWS_SECRET_ACCESS_KEY'')
       (getenv environ ''AWS_REGION'' ''us-east-1'')
       (test_files (normalize_prefix (getenv environ ''S3_PREFIX'' ''data/'')))
       (snd (generate_sample_data (now - 7 * day) now 5 g), w, [])"
  by (simp add: main_uploader_def Let_def split_beta)

lemma test_files_length: "length (test_files p) = 3"
  by (simp add: test_files_def)

text \<open>
  C6: \<^const>\<open>upload_to_s3\<close> returns \<open>True\<close> when neither the creation of the client nor
  the put-object call raises and \<open>False\<close> otherwise. Whatever the service does,
  \<^const>\<open>main_uploader\<close> calls it once for each of the three keys, in order. When the client
  can be created, the run makes three put-object calls, with those keys, and the value
  kept for a file says whether its own call returned; when it cannot, no put-object call is
  made and the three values are \<open>False\<close>.
\<close>

theorem upload_failures_do_not_stop_the_loop:
  "fst (upload_to_s3 s3 df b k a s r w0) =
     (create_client s3 a s r = None
      \<and> put_object s3 (length (put_calls w0))
           \<lparr>Bucket = b, Key = k, Body = df, ContentType = ''text/csv''\<rparr> = None)
   \<and> map fst (snd (snd (main_uploader environ now s3 g w)))
       = test_files (normalize_prefix (getenv environ ''S3_PREFIX'' ''data/''))
   \<and> (create_client s3 (environ ''AWS_ACCESS_KEY_ID'') (environ ''AWS_SECRET_ACCESS_KEY'')
          (getenv environ ''AWS_REGION'' ''us-east-1'') = None \<longrightarrow>
        take (length (put_calls w)) (put_calls (fst (snd (main_uploader environ now s3 g w))))
          = put_calls w
        \<and> map Key (drop (length (put_calls w)) (put_calls (fst (snd (main_uploader environ now s3 g w)))))
          = test_files (normalize_prefix (getenv environ ''S3_PREFIX'' ''data/''))
        \<and> map snd (snd (snd (main_uploader environ now s3 g w)))
          = map (\<lambda>(i, request). put_object s3 i request = None)
              (zip [length (put_calls w)..<length (put_calls w) + 3]
                 (drop (length (put_calls w)) (put_calls (fst (snd (main_uploader environ now s3 g w)))))))
   \<and> (create_client s3 (environ ''AWS_ACCESS_KEY_ID'') (environ ''AWS_SECRET_ACCESS_KEY'')
          (getenv environ ''AWS_REGION'' ''us-east-1'') \<noteq> None \<longrightarrow>
        put_calls (fst (snd (main_uploader environ now s3 g w))) = put_calls w
        \<and> map snd (snd (snd (main_uploader environ now s3 g w))) = [False, False, False])"
proof -
  let ?p = "normalize_prefix (getenv environ ''S3_PREFIX'' ''data/'')"
  let ?cc = "create_client s3 (environ ''AWS_ACCESS_KEY_ID'') (environ ''AWS_SECRET_ACCESS_KEY'')
          (getenv environ ''AWS_REGION'' ''us-east-1'')"
  let ?m = "main_uploader environ now s3 g w"
  have keys: "map fst (snd (snd ?m)) = test_files ?p"
    unfolding main_uploader_loop loop_keys by simp
  have ok: "take (length (put_calls w)) (put_calls (fst (snd ?m))) = put_calls w
        \<and> map Key (drop (length (put_calls w)) (put_calls (fst (snd ?m)))) = test_files ?p
        \<and> map snd (snd (snd ?m))
          = map (\<lambda>(i, request). put_object s3 i request = None)
              (zip [length (put_calls w)..<length (put_calls w) + 3]
                 (drop (length (put_calls w)) (put_calls (fst (snd ?m)))))" if c: "?cc = None"
  proof -
    have calls: "put_calls (fst (snd ?m)) = put_calls w @
        loop_requests (fst (generate_sample_data (now - 7 * day) now 5 g)) now
          (environ ''S3_BUCKET_NAME'') (snd (generate_sample_data (now - 7 * day) now 5 g))
          (test_files ?p)"
      unfolding main_uploader_loop loop_calls using c by simp
    show ?thesis
      unfolding calls unfolding main_uploader_loop loop_flags_ok [OF c]
      by (simp add: loop_requests_keys test_files_length)
  qed
  have fail: "put_calls (fst (snd ?m)) = put_calls w
        \<and> map snd (snd (snd ?m)) = [False, False, False]" if c: "?cc \<noteq> None"
  proof -
    have "(if ?cc = None then loop_requests (fst (generate_sample_data (now - 7 * day) now 5 g)) now
          (environ ''S3_BUCKET_NAME'') (snd (generate_sample_data (now - 7 * day) now 5 g))
          (test_files ?p) else []) = []"
      using c by (simp only: if_False)
    then show ?thesis
      unfolding main_uploader_loop loop_calls loop_flags_fail [OF c]
      by (simp add: test_files_length numeral_3_eq_3)
  qed
  show ?thesis using upload_result keys ok fail by blast
qed

lemma data_prefix: "normalize_prefix (getenv Map.empty ''S3_PREFIX'' ''data/'') = ''data/''"
  by (simp add: normalize_prefix_def getenv_def suffix_def)

lemma three_keys:
  assumes "map Key rs = [k1, k2, k3]"
  shows "\<exists>r1 r2 r3. rs = [r1, r2, r3] \<and> Key r1 = k1 \<and> Key r2 = k2 \<and> Key r3 = k3"
  using assms by (auto simp: map_eq_Cons_conv)

lemma upt3: "[0..<0 + 3] = [0, 1, 2]"
  by (simp add: upt_rec)

lemma failing_flags:
  assumes "Key r1 = ''data/sample-metrics.csv''" "Key r2 = ''data/daily-metrics-2024-01-15.csv''"
    "Key r3 = ''data/hourly-metrics-2024-01-15.csv''"
  shows "map (\<lambda>(i, request). put_object (failing_for ''data/daily-metrics-2024-01-15.csv'') i request = None)
      (zip [0, 1, 2] [r1, r2, r3]) = [True, False, True]"
  using assms by (simp add: failing_for_def)

lemma failing_client:
  "create_client (failing_for k) (Map.empty ''AWS_ACCESS_KEY_ID'') (Map.empty ''AWS_SECRET_ACCESS_KEY'')
      (getenv Map.empty ''AWS_REGION'' ''us-east-1'') = None"
  by (simp add: failing_for_def)

lemma empty_calls: "put_calls empty_world = []" "length (put_calls empty_world) = 0"
  by (simp_all add: empty_world_def)

theorem upload_failures_do_not_stop_the_loop_witness:
  "create_client (failing_for ''data/daily-metrics-2024-01-15.csv'')
      (Map.empty ''AWS_ACCESS_KEY_ID'') (Map.empty ''AWS_SECRET_ACCESS_KEY'')
      (getenv Map.empty ''AWS_REGION'' ''us-east-1'') = None
   \<and> map fst (snd (snd (main_uploader Map.empty 0 (failing_for ''data/daily-metrics-2024-01-15.csv'')
        (\<lambda>n. 1 / 2) empty_world))) = test_files ''data/''
   \<and> map snd (snd (snd (main_uploader Map.empty 0 (failing_for ''data/daily-metrics-2024-01-15.csv'')
        (\<lambda>n. 1 / 2) empty_world))) = [True, False, True]"
proof -
  let ?s3 = "failing_for ''data/daily-metrics-2024-01-15.csv''"
  let ?m = "main_uploader Map.empty 0 ?s3 (\<lambda>n. 1 / 2) empty_world"
  note c = failing_client [of "''data/daily-metrics-2024-01-15.csv''"]
  note t = upload_failures_do_not_stop_the_loop [of ?s3 "[]" None "[]" None None "[]" empty_world
      Map.empty 0 "\<lambda>n. 1 / 2" empty_world, unfolded data_prefix]
  from t have keys: "map fst (snd (snd ?m)) = test_files ''data/''"
    by blast
  from t have imp: "create_client ?s3 (Map.empty ''AWS_ACCESS_KEY_ID'') (Map.empty ''AWS_SECRET_ACCESS_KEY'')
      (getenv Map.empty ''AWS_REGION'' ''us-east-1'') = None \<longrightarrow>
        take (length (put_calls empty_world)) (put_calls (fst (snd ?m))) = put_calls empty_world
        \<and> map Key (drop (length (put_calls empty_world)) (put_calls (fst (snd ?m)))) = test_files ''data/''
        \<and> map snd (snd (snd ?m))
          = map (\<lambda>(i, request). put_object ?s3 i request = None)
              (zip [length (put_calls empty_world)..<length (put_calls empty_world) + 3] (drop (length (put_calls empty_world)) (put_calls (fst (snd ?m)))))"
    by blast
  from imp c have "map Key (drop (length (put_calls empty_world)) (put_calls (fst (snd ?m)))) = test_files ''data/''"
    and "map snd (snd (snd ?m)) = map (\<lambda>(i, request). put_object ?s3 i request = None)
        (zip [length (put_calls empty_world)..<length (put_calls empty_world) + 3] (drop (length (put_calls empty_world)) (put_calls (fst (snd ?m)))))"
    by blast+
  then have calls: "map Key (put_calls (fst (snd ?m))) = test_files ''data/''"
    and flags: "map snd (snd (snd ?m)) = map (\<lambda>(i, request). put_object ?s3 i request = None)
        (zip [0..<0 + 3] (put_calls (fst (snd ?m))))"
    by (simp_all only: empty_calls(2) drop_0)
  from calls have "map Key (put_calls (fst (snd ?m))) = [''data/sample-metrics.csv'',
      ''data/daily-metrics-2024-01-15.csv'', ''data/hourly-metrics-2024-01-15.csv'']"
    by (simp add: test_files_def)
  from three_keys [OF this] obtain r1 r2 r3 where r: "put_calls (fst (snd ?m)) = [r1, r2, r3]"
    "Key r1 = ''data/sample-metrics.csv''" "Key r2 = ''data/daily-metrics-2024-01-15.csv''"
    "Key r3 = ''data/hourly-metrics-2024-01-15.csv''"
    by blast
  have "map snd (snd (snd ?m)) = [True, False, True]"
    unfolding flags r(1) upt3 using r(2-4) by (rule failing_flags)
  with keys c show ?thesis by (intro conjI)
qed

lemma daily_in_key: "sublist ''daily'' ''daily/sample-metrics.csv''"
  "sublist ''daily'' ''daily/daily-metrics-2024-01-15.csv''"
  "sublist ''daily'' ''daily/hourly-metrics-2024-01-15.csv''"
  by code_simp+

lemma daily_prefix:
  "normalize_prefix (getenv [''S3_PREFIX'' \<mapsto> ''daily/''] ''S3_PREFIX'' ''data/'') = ''daily/''"
  by (simp add: normalize_prefix_def getenv_def suffix_def)

lemma day_rows: "length (fst (generate_sample_data (now - 1 * day) now 3 g)) = 12969"
  unfolding generate_length date_range_length by (simp add: day_def hour_def minute_def)

lemma week_rows: "length (fst (generate_sample_data (now - 7 * day) now 5 g)) = 151215"
  unfolding generate_length date_range_length by (simp add: day_def hour_def minute_def)

lemma main_calls_ok:
  assumes "create_client s3 (environ ''AWS_ACCESS_KEY_ID'') (environ ''AWS_SECRET_ACCESS_KEY'')
          (getenv environ ''AWS_REGION'' ''us-east-1'') = None"
  shows "put_calls (fst (snd (main_uploader environ now s3 g w))) = put_calls w @
      loop_requests (fst (generate_sample_data (now - 7 * day) now 5 g)) now
        (environ ''S3_BUCKET_NAME'') (snd (generate_sample_data (now - 7 * day) now 5 g))
        (test_files (normalize_prefix (getenv environ ''S3_PREFIX'' ''data/'')))"
  unfolding main_uploader_loop loop_calls using assms by simp

text \<open>
  C1, evaluated with \<open>S3_PREFIX\<close> set to \<open>daily/\<close>: every key contains \<open>daily\<close>, so
  all three uploads take the first branch of the loop. The object stored under
  \<open>daily/sample-metrics.csv\<close> is a frame of the last day with 3 devices (12969 rows),
  not the frame of the last 7 days with 5 devices (151215 rows).
\<close>

theorem daily_prefix_first_upload:
  "map (\<lambda>request. (Key request, length (Body request)))
     (put_calls (fst (snd (main_uploader [''S3_PREFIX'' \<mapsto> ''daily/''] 0 ok_service
        (\<lambda>n. 1 / 2) empty_world))))
     = [(''daily/sample-metrics.csv'', 12969), (''daily/daily-metrics-2024-01-15.csv'', 12969),
        (''daily/hourly-metrics-2024-01-15.csv'', 12969)]
   \<and> Body (hd (put_calls (fst (snd (main_uploader [''S3_PREFIX'' \<mapsto> ''daily/''] 0 ok_service
        (\<lambda>n. 1 / 2) empty_world)))))
     = fst (generate_sample_data (0 - 1 * day) 0 3
         (snd (generate_sample_data (0 - 7 * day) 0 5 (\<lambda>n. 1 / 2))))
   \<and> length (fst (generate_sample_data (0 - 7 * day) 0 5 (\<lambda>n. 1 / 2))) = 151215"
proof -
  have c: "create_client ok_service ([''S3_PREFIX'' \<mapsto> ''daily/''] ''AWS_ACCESS_KEY_ID'')
      ([''S3_PREFIX'' \<mapsto> ''daily/''] ''AWS_SECRET_ACCESS_KEY'')
      (getenv [''S3_PREFIX'' \<mapsto> ''daily/''] ''AWS_REGION'' ''us-east-1'') = None"
    by (simp add: ok_service_def)
  have d: "\<And>g. length (fst (generate_sample_data (- day) 0 3 g)) = 12969"
    using day_rows [of 0] by simp
  show ?thesis
    unfolding main_calls_ok [OF c] daily_prefix week_rows
    by (simp add: empty_world_def test_files_def body_for_def daily_in_key d)
qed

subsection \<open>Prefixes that name neither data set\<close>

lemma sublist_after_slash:
  assumes "suffix ''/'' p" "CHR ''/'' \<notin> set x"
  shows "sublist x (p @ q) \<longleftrightarrow> sublist x p \<or> sublist x q"
proof -
  have "sublist x p \<or> sublist x q" if x: "x = x1 @ x2" "suffix x1 p" "prefix x2 q" for x1 x2
  proof (cases "x1 = []")
    case True
    then show ?thesis using x by auto
  next
    case False
    from assms(1) obtain p' where p: "p = p' @ ''/''" by (auto simp: suffix_def)
    from x(2) obtain p'' where "p = p'' @ x1" by (auto simp: suffix_def)
    then have "last x1 = last p" using False by simp
    also have "\<dots> = CHR ''/''" unfolding p by simp
    finally have "CHR ''/'' \<in> set x1" using False last_in_set by metis
    then show ?thesis using assms(2) x(1) by simp
  qed
  then show ?thesis unfolding sublist_append by blast
qed

lemma file_names:
  "\<not> sublist ''daily'' ''sample-metrics.csv''" "\<not> sublist ''hourly'' ''sample-metrics.csv''"
  "sublist ''daily'' ''daily-metrics-2024-01-15.csv''"
  "\<not> sublist ''daily'' ''hourly-metrics-2024-01-15.csv''"
  "sublist ''hourly'' ''hourly-metrics-2024-01-15.csv''"
  by code_simp+

lemma normalize_prefix_slash: "suffix ''/'' (normalize_prefix s)"
  by (simp add: normalize_prefix_def)

lemma plain_prefix_uploads:
  assumes c: "create_client s3 (environ ''AWS_ACCESS_KEY_ID'') (environ ''AWS_SECRET_ACCESS_KEY'')
          (getenv environ ''AWS_REGION'' ''us-east-1'') = None"
    and d: "\<not> sublist ''daily'' (normalize_prefix (getenv environ ''S3_PREFIX'' ''data/''))"
    and h: "\<not> sublist ''hourly'' (normalize_prefix (getenv environ ''S3_PREFIX'' ''data/''))"
  shows "map (\<lambda>request. (Key request, Body request))
      (drop (length (put_calls w)) (put_calls (fst (snd (main_uploader environ now s3 g w)))))
    = (let p = normalize_prefix (getenv environ ''S3_PREFIX'' ''data/'');
           full = generate_sample_data (now - 7 * day) now 5 g;
           daily = generate_sample_data (now - 1 * day) now 3 (snd full);
           hourly = generate_sample_data (now - 1 * hour) now 2 (snd daily)
       in [(p @ ''sample-metrics.csv'', fst full),
           (p @ ''daily-metrics-2024-01-15.csv'', fst daily),
           (p @ ''hourly-metrics-2024-01-15.csv'', fst hourly)])"
proof -
  let ?p = "normalize_prefix (getenv environ ''S3_PREFIX'' ''data/'')"
  note s = normalize_prefix_slash [of "getenv environ ''S3_PREFIX'' ''data/''"]
  have k: "\<not> sublist ''daily'' (?p @ ''sample-metrics.csv'')"
    "\<not> sublist ''hourly'' (?p @ ''sample-metrics.csv'')"
    "sublist ''daily'' (?p @ ''daily-metrics-2024-01-15.csv'')"
    "\<not> sublist ''daily'' (?p @ ''hourly-metrics-2024-01-15.csv'')"
    "sublist ''hourly'' (?p @ ''hourly-metrics-2024-01-15.csv'')"
    using d h file_names by (simp_all add: sublist_after_slash [OF s])
  show ?thesis
    unfolding main_calls_ok [OF c]
    by (simp add: test_files_def body_for_def rng_after_def k Let_def)
qed

end
